theory Spec2Isabelle
  imports Complex_Main "HOL-Library.Signed_Division"
begin

unbundle bit_operations_syntax

section \<open>FT8 CRC-14 (\<open>ft8_crc\<close>)\<close>

text \<open>
  The C function works on \<open>int\<close> arrays holding bits. Arrays are lists of \<open>int\<close>;
  C's \<open>%\<close> truncates towards zero, which is \<open>smod\<close>. The length \<open>msglen\<close> is a
  natural number (the scratch buffer has \<open>msglen + 14\<close> cells).
\<close>

text \<open>The generator: the 14-bit polynomial 0x2757 with its leading 1 bit.\<close>

definition crc_div :: "int list" where
  "crc_div = [1, 1, 0, 0, 1, 1, 1, 0, 1, 0, 1, 0, 1, 1, 1]"

text \<open>The scratch buffer: the message with 14 zeros appended.\<close>

definition crc_append :: "int list \<Rightarrow> nat \<Rightarrow> int list" where
  "crc_append msg1 msglen =
     map (\<lambda>i. if i < msglen then msg1 ! i else 0) [0..<msglen + 14]"

text \<open>The inner loop: \<open>msg[i + j] = (msg[i + j] + div[j]) % 2\<close> for \<open>j\<close> from 0 to 14.\<close>

definition crc_xor_div :: "nat \<Rightarrow> int list \<Rightarrow> int list" where
  "crc_xor_div i msg =
     fold (\<lambda>j msg. msg[i + j := (msg ! (i + j) + crc_div ! j) smod 2]) [0..<15] msg"

text \<open>The outer loop: for \<open>i\<close> from 0 to \<open>msglen - 1\<close>, divide where \<open>msg[i]\<close> is set.\<close>

definition crc_sweep :: "nat \<Rightarrow> int list \<Rightarrow> int list" where
  "crc_sweep msglen msg =
     fold (\<lambda>i msg. if msg ! i \<noteq> 0 then crc_xor_div i msg else msg) [0..<msglen] msg"

definition ft8_crc :: "int list \<Rightarrow> nat \<Rightarrow> int list" where
  "ft8_crc msg1 msglen =
     (let msg = crc_sweep msglen (crc_append msg1 msglen)
      in map (\<lambda>i. msg ! (msglen + i)) [0..<14])"

definition is_bits :: "int list \<Rightarrow> bool" where
  "is_bits xs = list_all (\<lambda>x. x = 0 \<or> x = 1) xs"

subsection \<open>Polynomials over GF(2)\<close>

text \<open>
  The round-trip property of the CRC speaks of the division of binary polynomials.
  These are the mathematical notions, defined on their own and not through \<open>ft8_crc\<close>
  or its loops. A polynomial is the list of its coefficients, the highest degree first,
  so \<open>[1, 0, 1]\<close> is \<open>x^2 + 1\<close>. The sum of two polynomials of the same length adds the
  coefficients modulo 2.
\<close>

definition gf2_add :: "int list \<Rightarrow> int list \<Rightarrow> int list" where
  "gf2_add xs ys = map2 (\<lambda>x y. (x + y) mod 2) xs ys"

text \<open>
  The product of \<open>q\<close> and \<open>g\<close>, with \<open>length q + length g - 1\<close> coefficients:
  the leading coefficient \<open>b\<close> of \<open>b # q\<close> contributes \<open>b\<close> times \<open>g\<close> at the top, the
  rest contributes its own product with \<open>g\<close>, one place lower.
\<close>

fun gf2_times :: "int list \<Rightarrow> int list \<Rightarrow> int list" where
  "gf2_times [] g = replicate (length g - 1) 0"
| "gf2_times (b # q) g =
     gf2_add (map (\<lambda>x. b * x) g @ replicate (length q) 0) (0 # gf2_times q g)"

text \<open>
  Long division of \<open>xs\<close> by \<open>g\<close>, whose leading coefficient is 1, to a quotient of \<open>n\<close>
  coefficients: the leading coefficient of the dividend is the next coefficient of the
  quotient; where it is 1, \<open>g\<close> is subtracted (added, over GF(2)) from the top of the
  dividend, which clears that coefficient; the division goes on with the coefficients
  that follow. What is left when the quotient is complete is the remainder.
\<close>

fun gf2_divide :: "int list \<Rightarrow> nat \<Rightarrow> int list \<Rightarrow> int list \<times> int list" where
  "gf2_divide g 0 xs = ([], xs)"
| "gf2_divide g (Suc n) xs =
     (let b = hd xs;
          ys = (if b = 1 then gf2_add xs (g @ replicate n 0) else xs);
          (q, r) = gf2_divide g n (tl ys)
      in (b # q, r))"

text \<open>
  A dividend of \<open>l\<close> coefficients and a divisor of \<open>k\<close> give a quotient of
  \<open>l + 1 - k\<close> coefficients and a remainder of \<open>k - 1\<close>.
\<close>

definition gf2_quotient :: "int list \<Rightarrow> int list \<Rightarrow> int list" where
  "gf2_quotient g xs = fst (gf2_divide g (Suc (length xs) - length g) xs)"

definition gf2_remainder :: "int list \<Rightarrow> int list \<Rightarrow> int list" where
  "gf2_remainder g xs = snd (gf2_divide g (Suc (length xs) - length g) xs)"

section \<open>Arithmetic of the decoders\<close>

text \<open>
  \<open>REAL\<close> is \<open>float\<close> in the source. The model computes with the real numbers
  (no rounding, no infinities, no NaN). Where the mathematical operation is undefined the
  model stops with a fault, so that "the code never divides by zero" is a statement
  about results: a division is only ever reported as \<open>Inr\<close> when its divisor is not
  zero, a logarithm only when its argument is positive.
\<close>

datatype fault = Division_By_Zero | Log_Of_Non_Positive

type_synonym 'a result = "fault + 'a"

definition and_then :: "'a result \<Rightarrow> ('a \<Rightarrow> 'b result) \<Rightarrow> 'b result" where
  "and_then r f = (case r of Inl x \<Rightarrow> Inl x | Inr v \<Rightarrow> f v)"

definition fdiv :: "real \<Rightarrow> real \<Rightarrow> real result" where
  "fdiv x y = (if y = 0 then Inl Division_By_Zero else Inr (x / y))"

definition flog :: "real \<Rightarrow> real result" where
  "flog x = (if x \<le> 0 then Inl Log_Of_Non_Positive else Inr (ln x))"

text \<open>A counted \<open>for\<close> loop over a state, stopping at the first fault.\<close>

fun for_each :: "nat list \<Rightarrow> (nat \<Rightarrow> 's \<Rightarrow> 's result) \<Rightarrow> 's \<Rightarrow> 's result" where
  "for_each [] body s = Inr s"
| "for_each (i # is) body s =
     (case body i s of Inl x \<Rightarrow> Inl x | Inr s' \<Rightarrow> for_each is body s')"

text \<open>A loop that fills an array cell by cell.\<close>

fun map_result :: "('a \<Rightarrow> 'b result) \<Rightarrow> 'a list \<Rightarrow> 'b list result" where
  "map_result f [] = Inr []"
| "map_result f (x # xs) =
     (case f x of Inl e \<Rightarrow> Inl e
      | Inr y \<Rightarrow> (case map_result f xs of Inl e \<Rightarrow> Inl e | Inr ys \<Rightarrow> Inr (y # ys)))"

text \<open>
  The two-dimensional arrays \<open>m[83][174]\<close> and \<open>e[83][174]\<close>: lists of rows;
  \<open>mat_set a j i v\<close> is the assignment \<open>a[j][i] = v\<close>.
\<close>

type_synonym matrix = "real list list"

definition mat_set :: "'a list list \<Rightarrow> nat \<Rightarrow> nat \<Rightarrow> 'a \<Rightarrow> 'a list list" where
  "mat_set a j i v = a[j := (a ! j)[i := v]]"

section \<open>Parity check (\<open>ldpc_check\<close>)\<close>

text \<open>
  The tables \<open>Nm[83][7]\<close> and \<open>Mn[174][3]\<close> are declared in \<open>arrays.h\<close>; the
  functions below take them as parameters. Their entries are 1-based indices, and 0 in
  \<open>Nm\<close> marks an unused slot. The code indexes its arrays with the entries minus one,
  so it needs them in range.
\<close>

definition Nm_ok :: "int list list \<Rightarrow> bool" where
  "Nm_ok Nm \<longleftrightarrow> length Nm = 83 \<and>
     (\<forall>row \<in> set Nm. length row = 7 \<and> (\<forall>x \<in> set row. 0 \<le> x \<and> x \<le> 174))"

definition Mn_ok :: "int list list \<Rightarrow> bool" where
  "Mn_ok Mn \<longleftrightarrow> length Mn = 174 \<and>
     (\<forall>row \<in> set Mn. length row = 3 \<and> (\<forall>x \<in> set row. 1 \<le> x \<and> x \<le> 83))"

definition check_parity :: "int list list \<Rightarrow> int list \<Rightarrow> nat \<Rightarrow> int" where
  "check_parity Nm codeword j =
     fold (\<lambda>ii1 x. let i1 = Nm ! j ! ii1 - 1
                    in if i1 \<ge> 0 then x XOR codeword ! nat i1 else x) [0..<7] 0"

definition ldpc_check :: "int list list \<Rightarrow> int list \<Rightarrow> int" where
  "ldpc_check Nm codeword =
     fold (\<lambda>j score. if check_parity Nm codeword j = 0 then score + 1 else score) [0..<83] 0"

section \<open>The iteration loop shared by both decoders\<close>

text \<open>
  Lines 166 to 180 and 213 to 217 of \<open>ldpc_decode\<close> are repeated word for word in
  \<open>ldpc_decode_log\<close> (lines 320 to 334 and 355 to 359). The loop is written once, over
  the three phases of an iteration: the check update \<open>chk\<close>, the hard decision \<open>hard\<close>
  and the variable update \<open>upd\<close>, each working on the message state \<open>'s\<close> (the arrays
  \<open>m\<close> and \<open>e\<close>). The arrays \<open>cw\<close>, \<open>best_cw\<close> and \<open>plain\<close> have 174 cells each, and the
  loops that copy one into another cell by cell are assignments of the whole list.
\<close>

type_synonym best = "int list \<times> int"

text \<open>\<open>if (score > best_score) { best_cw = cw; best_score = score; }\<close>\<close>

definition record_best :: "int list \<Rightarrow> int \<Rightarrow> best \<Rightarrow> best" where
  "record_best cw score b = (if score > snd b then (cw, score) else b)"

datatype 's iteration = Return best | Continue 's best

definition decode_iteration ::
  "int list list \<Rightarrow> ('s \<Rightarrow> 's result) \<Rightarrow> ('s \<Rightarrow> int list result) \<Rightarrow> ('s \<Rightarrow> 's result)
     \<Rightarrow> 's \<Rightarrow> best \<Rightarrow> 's iteration result" where
  "decode_iteration Nm chk hard upd s b =
     and_then (chk s) (\<lambda>s1.
     and_then (hard s1) (\<lambda>cw.
       let score = ldpc_check Nm cw in
       if score = 83 then Inr (Return (cw, 83))
       else let b' = record_best cw score b in
         and_then (upd s1) (\<lambda>s2. Inr (Continue s2 b'))))"

fun decode_loop ::
  "int list list \<Rightarrow> ('s \<Rightarrow> 's result) \<Rightarrow> ('s \<Rightarrow> int list result) \<Rightarrow> ('s \<Rightarrow> 's result)
     \<Rightarrow> nat \<Rightarrow> 's \<Rightarrow> best \<Rightarrow> best result" where
  "decode_loop Nm chk hard upd 0 s b = Inr b"
| "decode_loop Nm chk hard upd (Suc n) s b =
     and_then (decode_iteration Nm chk hard upd s b) (\<lambda>r.
       case r of Return res \<Rightarrow> Inr res
       | Continue s' b' \<Rightarrow> decode_loop Nm chk hard upd n s' b')"

text \<open>
  The hard decisions of the successive iterations, as long as the loop goes on: what
  "the maximum over all iterations" ranges over.
\<close>

fun hard_decisions ::
  "int list list \<Rightarrow> ('s \<Rightarrow> 's result) \<Rightarrow> ('s \<Rightarrow> int list result) \<Rightarrow> ('s \<Rightarrow> 's result)
     \<Rightarrow> nat \<Rightarrow> 's \<Rightarrow> int list list" where
  "hard_decisions Nm chk hard upd 0 s = []"
| "hard_decisions Nm chk hard upd (Suc n) s =
     (case and_then (chk s) (\<lambda>s1. and_then (hard s1) (\<lambda>cw. Inr (s1, cw))) of
        Inl x \<Rightarrow> []
      | Inr (s1, cw) \<Rightarrow>
          cw # (if ldpc_check Nm cw = 83 then []
                else (case upd s1 of Inl x \<Rightarrow> [] | Inr s2 \<Rightarrow> hard_decisions Nm chk hard upd n s2)))"

text \<open>
  What the caller sees of a call: the input array, the output array and \<open>*ok\<close>.
\<close>

record decode_mem =
  llcodeword :: "real list"
  plain :: "int list"
  ok :: int

section \<open>Sum-product decoder on probabilities (\<open>ldpc_decode\<close>)\<close>

text \<open>Lines 93 to 95: \<open>p = e**x / (1 + e**x)\<close>.\<close>

definition llr_to_prob :: "real \<Rightarrow> real result" where
  "llr_to_prob x = (let ex = exp x in fdiv ex (1 + ex))"

text \<open>Lines 155 to 163 and 199 to 207: \<open>q0 / (q0 + q1)\<close> with the guard on \<open>q0\<close>.\<close>

definition prob_of_q :: "real \<Rightarrow> real \<Rightarrow> real result" where
  "prob_of_q q0 q1 =
     (if q0 = 0 then Inr 1
      else and_then (fdiv q1 q0) (\<lambda>r. fdiv 1 (1 + r)))"

text \<open>Lines 122 to 133: the product over the other bits of check \<open>j\<close>.\<close>

definition prob_check_product :: "int list list \<Rightarrow> matrix \<Rightarrow> nat \<Rightarrow> int \<Rightarrow> real" where
  "prob_check_product Nm m j i1 =
     fold (\<lambda>ii2 a. let i2 = Nm ! j ! ii2 - 1
                    in if i2 \<ge> 0 \<and> i2 \<noteq> i1 then a * (1 - 2 * (1 - m ! j ! nat i2)) else a)
       [0..<7] 1"

text \<open>Lines 115 to 141.\<close>

definition prob_check_update :: "int list list \<Rightarrow> matrix \<Rightarrow> matrix \<Rightarrow> matrix" where
  "prob_check_update Nm m e =
     fold (\<lambda>j e.
       fold (\<lambda>ii1 e. let i1 = Nm ! j ! ii1 - 1
                      in if i1 < 0 then e
                         else mat_set e j (nat i1) (0.5 + 0.5 * prob_check_product Nm m j i1))
         [0..<7] e)
       [0..<83] e"

text \<open>Lines 146 to 164: one bit of the hard decision.\<close>

definition prob_hard_bit :: "int list list \<Rightarrow> real list \<Rightarrow> matrix \<Rightarrow> nat \<Rightarrow> int result" where
  "prob_hard_bit Mn codeword e i =
     (let (q0, q1) =
        fold (\<lambda>j (q0, q1). let j2 = nat (Mn ! i ! j - 1)
                            in (q0 * e ! j2 ! i, q1 * (1 - e ! j2 ! i)))
          [0..<3] (codeword ! i, 1 - codeword ! i)
      in and_then (prob_of_q q0 q1) (\<lambda>p. Inr (if p \<le> 0.5 then 1 else 0)))"

definition prob_hard :: "int list list \<Rightarrow> real list \<Rightarrow> matrix \<Rightarrow> int list result" where
  "prob_hard Mn codeword e = map_result (prob_hard_bit Mn codeword e) [0..<174]"

text \<open>Lines 186 to 207: the message of bit \<open>i\<close> to check \<open>j1\<close>.\<close>

definition prob_var_msg :: "int list list \<Rightarrow> real list \<Rightarrow> matrix \<Rightarrow> nat \<Rightarrow> int \<Rightarrow> real result" where
  "prob_var_msg Mn codeword e i j1 =
     (let (q0, q1) =
        fold (\<lambda>ji2 (q0, q1). let j2 = Mn ! i ! ji2 - 1
                              in if j1 \<noteq> j2
                                 then (q0 * e ! nat j2 ! i, q1 * (1 - e ! nat j2 ! i))
                                 else (q0, q1))
          [0..<3] (codeword ! i, 1 - codeword ! i)
      in prob_of_q q0 q1)"

text \<open>Lines 182 to 210.\<close>

definition prob_var_update :: "int list list \<Rightarrow> real list \<Rightarrow> matrix \<Rightarrow> matrix \<Rightarrow> matrix result" where
  "prob_var_update Mn codeword e m =
     for_each [0..<174] (\<lambda>i m.
       for_each [0..<3] (\<lambda>ji1 m.
         let j1 = Mn ! i ! ji1 - 1
         in and_then (prob_var_msg Mn codeword e i j1) (\<lambda>p. Inr (mat_set m (nat j1) i p))) m) m"

text \<open>The three phases on the pair \<open>(m, e)\<close>.\<close>

definition prob_chk :: "int list list \<Rightarrow> matrix \<times> matrix \<Rightarrow> (matrix \<times> matrix) result" where
  "prob_chk Nm s = Inr (fst s, prob_check_update Nm (fst s) (snd s))"

definition prob_dec :: "int list list \<Rightarrow> real list \<Rightarrow> matrix \<times> matrix \<Rightarrow> int list result" where
  "prob_dec Mn codeword s = prob_hard Mn codeword (snd s)"

definition prob_upd ::
  "int list list \<Rightarrow> real list \<Rightarrow> matrix \<times> matrix \<Rightarrow> (matrix \<times> matrix) result" where
  "prob_upd Mn codeword s =
     and_then (prob_var_update Mn codeword (snd s) (fst s)) (\<lambda>m'. Inr (m', snd s))"

text \<open>Lines 91 to 96: the probabilities of the 174 input values.\<close>

definition prob_codeword :: "real list \<Rightarrow> real list result" where
  "prob_codeword ll = map_result (\<lambda>i. llr_to_prob (ll ! i)) [0..<174]"

text \<open>Lines 101 to 110: \<open>m[j][i] = codeword[i]\<close> and \<open>e[j][i] = 0.0\<close>.\<close>

definition init_m :: "real list \<Rightarrow> matrix" where
  "init_m codeword = map (\<lambda>j. map (\<lambda>i. codeword ! i) [0..<174]) [0..<83]"

definition init_e :: matrix where
  "init_e = map (\<lambda>j. map (\<lambda>i. 0) [0..<174]) [0..<83]"

text \<open>
  \<open>best_cw\<close> is a local array without initialiser: what it holds at entry is not
  determined by the arguments, so it is a parameter, \<open>junk\<close>. \<open>iters\<close> is an \<open>int\<close>;
  the loop \<open>for (iter = 0; iter < iters; iter++)\<close> runs \<open>nat iters\<close> times.
\<close>

definition ldpc_decode ::
  "int list list \<Rightarrow> int list list \<Rightarrow> int list \<Rightarrow> int \<Rightarrow> decode_mem \<Rightarrow> decode_mem result" where
  "ldpc_decode Nm Mn junk iters mem =
     and_then (prob_codeword (llcodeword mem)) (\<lambda>codeword.
     and_then (decode_loop Nm (prob_chk Nm) (prob_dec Mn codeword) (prob_upd Mn codeword)
                 (nat iters) (init_m codeword, init_e) (junk, -1))
       (\<lambda>b. Inr (mem\<lparr>plain := fst b, ok := snd b\<rparr>)))"

section \<open>\<open>fast_tanh\<close>\<close>

definition fast_tanh :: "real \<Rightarrow> real result" where
  "fast_tanh x =
     (if x < -7.6 then Inr (-0.999)
      else if x > 7.6 then Inr 0.999
      else let x2 = x * x;
               a = x * (135135 + x2 * (17325 + x2 * (378 + x2)));
               b = 135135 + x2 * (62370 + x2 * (3150 + x2 * 28))
           in fdiv a b)"

section \<open>Sum-product decoder on log-likelihoods (\<open>ldpc_decode_log\<close>)\<close>

text \<open>Lines 285 to 294: the product of the \<open>fast_tanh\<close> of the other bits of check \<open>j\<close>.\<close>

definition log_check_product :: "int list list \<Rightarrow> matrix \<Rightarrow> nat \<Rightarrow> int \<Rightarrow> real result" where
  "log_check_product Nm m j i1 =
     for_each [0..<7] (\<lambda>ii2 a.
       let i2 = Nm ! j ! ii2 - 1
       in if i2 \<ge> 0 \<and> i2 \<noteq> i1
          then and_then (fast_tanh (m ! j ! nat i2 / 2)) (\<lambda>t. Inr (a * t))
          else Inr a) 1"

text \<open>Lines 295 to 307: the clamped \<open>log((1 + a) / (1 - a))\<close>.\<close>

definition log_check_msg :: "real \<Rightarrow> real result" where
  "log_check_msg a =
     (if a \<ge> 0.999 then Inr 7.6
      else if a \<le> -0.999 then Inr (-7.6)
      else and_then (fdiv (1 + a) (1 - a)) flog)"

text \<open>Lines 278 to 310.\<close>

definition log_check_update :: "int list list \<Rightarrow> matrix \<Rightarrow> matrix \<Rightarrow> matrix result" where
  "log_check_update Nm m e =
     for_each [0..<83] (\<lambda>j e.
       for_each [0..<7] (\<lambda>ii1 e.
         let i1 = Nm ! j ! ii1 - 1
         in if i1 < 0 then Inr e
            else and_then (log_check_product Nm m j i1) (\<lambda>a.
                 and_then (log_check_msg a) (\<lambda>tmp. Inr (mat_set e j (nat i1) tmp)))) e) e"

text \<open>Lines 312 to 319.\<close>

definition log_hard :: "int list list \<Rightarrow> real list \<Rightarrow> matrix \<Rightarrow> int list" where
  "log_hard Mn codeword e =
     map (\<lambda>i. let l = fold (\<lambda>j l. l + e ! nat (Mn ! i ! j - 1) ! i) [0..<3] (codeword ! i)
              in if l \<le> 0 then 1 else 0) [0..<174]"

text \<open>Lines 336 to 352.\<close>

definition log_var_update :: "int list list \<Rightarrow> real list \<Rightarrow> matrix \<Rightarrow> matrix \<Rightarrow> matrix" where
  "log_var_update Mn codeword e m =
     fold (\<lambda>i m.
       fold (\<lambda>ji1 m.
         let j1 = Mn ! i ! ji1 - 1;
             l = fold (\<lambda>ji2 l. let j2 = Mn ! i ! ji2 - 1
                                in if j1 \<noteq> j2 then l + e ! nat j2 ! i else l)
                   [0..<3] (codeword ! i)
         in mat_set m (nat j1) i l) [0..<3] m) [0..<174] m"

definition log_chk :: "int list list \<Rightarrow> matrix \<times> matrix \<Rightarrow> (matrix \<times> matrix) result" where
  "log_chk Nm s = and_then (log_check_update Nm (fst s) (snd s)) (\<lambda>e'. Inr (fst s, e'))"

definition log_dec :: "int list list \<Rightarrow> real list \<Rightarrow> matrix \<times> matrix \<Rightarrow> int list result" where
  "log_dec Mn codeword s = Inr (log_hard Mn codeword (snd s))"

definition log_upd ::
  "int list list \<Rightarrow> real list \<Rightarrow> matrix \<times> matrix \<Rightarrow> (matrix \<times> matrix) result" where
  "log_upd Mn codeword s = Inr (log_var_update Mn codeword (snd s) (fst s), snd s)"

definition ldpc_decode_log ::
  "int list list \<Rightarrow> int list list \<Rightarrow> int list \<Rightarrow> int \<Rightarrow> decode_mem \<Rightarrow> decode_mem result" where
  "ldpc_decode_log Nm Mn junk iters mem =
     (let codeword = llcodeword mem in
      and_then (decode_loop Nm (log_chk Nm) (log_dec Mn codeword) (log_upd Mn codeword)
                  (nat iters) (init_m codeword, init_e) (junk, -1))
        (\<lambda>b. Inr (mem\<lparr>plain := fst b, ok := snd b\<rparr>)))"

section \<open>Gauss-Jordan elimination over GF(2) (\<open>gauss_jordan\<close>)\<close>

text \<open>
  The matrix \<open>m[174][2 * 91]\<close> is a list of 174 rows of 182 \<open>int\<close>s holding bits, and
  \<open>which\<close> a list of \<open>int\<close>. The parameter is declared \<open>int which[91]\<close>, but the code
  swaps \<open>which[row]\<close> with \<open>which[row1]\<close> for \<open>row1\<close> up to \<open>cols - 1 = 173\<close>, so the
  array it is given has to have 174 cells.
\<close>

text \<open>Lines 429 to 434: the rows \<open>row\<close> and \<open>row1\<close> are swapped cell by cell.\<close>

definition swap_rows :: "nat \<Rightarrow> nat \<Rightarrow> nat \<Rightarrow> int list list \<Rightarrow> int list list" where
  "swap_rows rows row row1 m =
     fold (\<lambda>col m. let tmp = m ! row ! col
                    in mat_set (mat_set m row col (m ! row1 ! col)) row1 col tmp)
       [0..<2 * rows] m"

text \<open>Lines 435 to 437.\<close>

definition swap_which :: "nat \<Rightarrow> nat \<Rightarrow> int list \<Rightarrow> int list" where
  "swap_which row row1 which =
     (let tmp = which ! row in (which[row := which ! row1])[row1 := tmp])"

text \<open>
  Lines 424 to 440: the first row below \<open>row\<close> with a 1 in column \<open>row\<close> is swapped
  with row \<open>row\<close>, and the search stops (\<open>break\<close>).
\<close>

definition find_pivot ::
  "nat \<Rightarrow> nat \<Rightarrow> nat \<Rightarrow> int list list \<times> int list \<Rightarrow> int list list \<times> int list" where
  "find_pivot rows cols row s =
     (case find (\<lambda>row1. fst s ! row1 ! row = 1) [row + 1..<cols] of
        None \<Rightarrow> s
      | Some row1 \<Rightarrow> (swap_rows rows row row1 (fst s), swap_which row row1 (snd s)))"

text \<open>Lines 457 to 460: row \<open>row\<close> is added to row \<open>row1\<close>.\<close>

definition add_row :: "nat \<Rightarrow> nat \<Rightarrow> nat \<Rightarrow> int list list \<Rightarrow> int list list" where
  "add_row rows row row1 m =
     fold (\<lambda>col m. mat_set m row1 col ((m ! row1 ! col + m ! row ! col) smod 2))
       [0..<2 * rows] m"

text \<open>Lines 451 to 462.\<close>

definition eliminate :: "nat \<Rightarrow> nat \<Rightarrow> nat \<Rightarrow> int list list \<Rightarrow> int list list" where
  "eliminate rows cols row m =
     fold (\<lambda>row1 m. if row1 = row then m
                     else if m ! row1 ! row \<noteq> 0 then add_row rows row row1 m else m)
       [0..<cols] m"

text \<open>
  Lines 420 to 465: the loop over the pivots, on the rows still to do. The result is
  the matrix, \<open>which\<close> and \<open>*ok\<close>.
\<close>

fun gj_loop ::
  "nat \<Rightarrow> nat \<Rightarrow> nat list \<Rightarrow> int list list \<times> int list \<Rightarrow> int list list \<times> int list \<times> int" where
  "gj_loop rows cols [] s = (fst s, snd s, 1)"
| "gj_loop rows cols (row # rest) s =
     (let s1 = (if fst s ! row ! row \<noteq> 1 then find_pivot rows cols row s else s)
      in if fst s1 ! row ! row \<noteq> 1 then (fst s1, snd s1, 0)
         else let m2 = mat_set (fst s1) row (rows + row)
                         ((fst s1 ! row ! (rows + row) + 1) smod 2)
              in gj_loop rows cols rest (eliminate rows cols row m2, snd s1))"

text \<open>The two \<open>assert\<close>s abort the call unless \<open>rows = 91\<close> and \<open>cols = 174\<close>.\<close>

datatype gj_error = Assertion_Failed

definition gauss_jordan ::
  "int \<Rightarrow> int \<Rightarrow> int list list \<Rightarrow> int list \<Rightarrow> gj_error + (int list list \<times> int list \<times> int)" where
  "gauss_jordan rows cols m which =
     (if rows \<noteq> 91 \<or> cols \<noteq> 174 then Inl Assertion_Failed
      else Inr (gj_loop (nat rows) (nat cols) [0..<nat rows] (m, which)))"

section \<open>Auxiliary notions of the proofs\<close>

text \<open>One round of the outer loop of \<open>ft8_crc\<close>.\<close>

definition crc_step :: "nat \<Rightarrow> int list \<Rightarrow> int list" where
  "crc_step i msg = (if msg ! i \<noteq> 0 then crc_xor_div i msg else msg)"

text \<open>Numerator and denominator of the rational function of \<open>fast_tanh\<close>.\<close>

definition tanh_num :: "real \<Rightarrow> real" where
  "tanh_num x = x * (135135 + x * x * (17325 + x * x * (378 + x * x)))"

definition tanh_den :: "real \<Rightarrow> real" where
  "tanh_den x = 135135 + x * x * (62370 + x * x * (3150 + x * x * 28))"

text \<open>
  Vectors and matrices of probabilities: 174 cells (83 rows of them) with every entry
  in \<open>[0, 1]\<close>.
\<close>

definition unit_vec :: "real list \<Rightarrow> bool" where
  "unit_vec v \<longleftrightarrow> length v = 174 \<and> (\<forall>x \<in> set v. 0 \<le> x \<and> x \<le> 1)"

definition unit_mat :: "matrix \<Rightarrow> bool" where
  "unit_mat a \<longleftrightarrow> length a = 83 \<and> (\<forall>row \<in> set a. unit_vec row)"

text \<open>
  Tables of the right shape with two parity checks that are not empty: check 1 on bit 1
  alone, check 2 on bits 1 and 2. They serve as concrete inputs.
\<close>

definition Nm_small :: "int list list" where
  "Nm_small = [1, 0, 0, 0, 0, 0, 0] # [1, 2, 0, 0, 0, 0, 0] # replicate 81 (replicate 7 0)"

definition Mn_small :: "int list list" where
  "Mn_small = [1, 1, 1] # replicate 173 [2, 2, 2]"

definition mem_zero :: decode_mem where
  "mem_zero = \<lparr>llcodeword = replicate 174 0, plain = replicate 174 0, ok = 0\<rparr>"

text \<open>
  The array \<open>e\<close> after the check update of the first iteration on the small tables, in
  the log-domain decoder and in the probability decoder.
\<close>

definition e_log_small :: "real \<Rightarrow> matrix" where
  "e_log_small v = mat_set (mat_set (mat_set init_e 0 0 7.6) (Suc 0) 0 v) (Suc 0) (Suc 0) 0"

definition e_prob_small :: "real \<Rightarrow> matrix" where
  "e_prob_small p =
     mat_set (mat_set (mat_set init_e 0 0 1) (Suc 0) 0 (0.5 + 0.5 * (1 - 2 * (1 - p))))
       (Suc 0) (Suc 0) (1 / 2)"

text \<open>
  The hard decisions \<open>cw\<close> that a call of \<open>ldpc_decode\<close> (of \<open>ldpc_decode_log\<close>) computes,
  one per iteration, in order.
\<close>

definition prob_hard_decisions :: "int list list \<Rightarrow> int list list \<Rightarrow> int \<Rightarrow> real list \<Rightarrow> int list list" where
  "prob_hard_decisions Nm Mn iters ll =
     (case prob_codeword ll of
        Inl x \<Rightarrow> []
      | Inr codeword \<Rightarrow>
          hard_decisions Nm (prob_chk Nm) (prob_dec Mn codeword) (prob_upd Mn codeword)
            (nat iters) (init_m codeword, init_e))"

definition log_hard_decisions :: "int list list \<Rightarrow> int list list \<Rightarrow> int \<Rightarrow> real list \<Rightarrow> int list list" where
  "log_hard_decisions Nm Mn iters ll =
     hard_decisions Nm (log_chk Nm) (log_dec Mn ll) (log_upd Mn ll) (nat iters) (init_m ll, init_e)"

text \<open>
  The sign decode of an LLR vector, which the specification's edge case on a budget of 0
  speaks of: bit 1 where the value is not positive, as at line 318. Neither decoder
  computes it before its loop.
\<close>

definition sign_decode :: "real list \<Rightarrow> int list" where
  "sign_decode ll = map (\<lambda>i. if ll ! i \<le> 0 then 1 else 0) [0..<174]"

text \<open>What \<open>best_cw\<close> holds on entry, and an input that decodes at once.\<close>

definition junk_small :: "int list" where
  "junk_small = replicate 174 7"

definition mem_good :: decode_mem where
  "mem_good = \<lparr>llcodeword = 0 # 20 # replicate 172 0, plain = replicate 174 0, ok = 0\<rparr>"

text \<open>The shape of \<open>m[174][2 * 91]\<close>.\<close>

definition gj_wf :: "int list list \<Rightarrow> bool" where
  "gj_wf m \<longleftrightarrow> length m = 174 \<and> (\<forall>r<174. length (m ! r) = 182)"

text \<open>A matrix over GF(2): every cell is 0 or 1.\<close>

definition gj_bits :: "int list list \<Rightarrow> bool" where
  "gj_bits m \<longleftrightarrow> (\<forall>r<174. \<forall>c<182. m ! r ! c = 0 \<or> m ! r ! c = 1)"

text \<open>
  The invariant of the loop of \<open>gauss_jordan\<close> before pivot \<open>t\<close>. \<open>G w\<close> is the left
  half of the original row recorded under the label \<open>w\<close>. The columns of the right half
  from \<open>t\<close> on are still zero, the first \<open>t\<close> columns are unit columns, and the right
  half records the row operations done so far: the left half of row \<open>k\<close> is, over
  GF(2), the combination of the original rows now at 0..\<open>t - 1\<close> with the coefficients of
  the right half of row \<open>k\<close>, plus the original row now at \<open>k\<close> when \<open>k\<close> is not yet a
  pivot row.
\<close>

definition gj_inv :: "(int \<Rightarrow> nat \<Rightarrow> int) \<Rightarrow> nat \<Rightarrow> int list list \<Rightarrow> int list \<Rightarrow> bool" where
  "gj_inv G t m w \<longleftrightarrow> gj_wf m \<and> gj_bits m \<and> length w = 174 \<and>
     (\<forall>k<174. \<forall>c<91. t \<le> c \<longrightarrow> m ! k ! (91 + c) = 0) \<and>
     (\<forall>k<174. \<forall>c<t. m ! k ! c = (if k = c then 1 else 0)) \<and>
     (\<forall>k<174. \<forall>j<91. m ! k ! j =
        ((if t \<le> k then G (w ! k) j else 0) + (\<Sum>c<t. m ! k ! (91 + c) * G (w ! c) j)) mod 2)"

text \<open>
  The same between line 446, which sets the cell of the identity, and the elimination
  that follows.
\<close>

definition gj_mid :: "(int \<Rightarrow> nat \<Rightarrow> int) \<Rightarrow> nat \<Rightarrow> int list list \<Rightarrow> int list \<Rightarrow> bool" where
  "gj_mid G t m w \<longleftrightarrow> gj_wf m \<and> gj_bits m \<and> length w = 174 \<and>
     (\<forall>k<174. \<forall>c<91. Suc t \<le> c \<longrightarrow> m ! k ! (91 + c) = 0) \<and>
     (\<forall>k<174. \<forall>c<t. m ! k ! c = (if k = c then 1 else 0)) \<and>
     m ! t ! t = 1 \<and>
     (\<forall>k<174. \<forall>j<91. m ! k ! j =
        ((if Suc t \<le> k then G (w ! k) j else 0) + (\<Sum>c<Suc t. m ! k ! (91 + c) * G (w ! c) j)) mod 2)"

text \<open>Row vectors over GF(2), and their product with a matrix.\<close>

definition bit_vectors :: "nat \<Rightarrow> int list set" where
  "bit_vectors n = {xs. set xs \<subseteq> {0, 1} \<and> length xs = n}"

definition vec_times :: "nat \<Rightarrow> (nat \<Rightarrow> nat \<Rightarrow> int) \<Rightarrow> int list \<Rightarrow> int list" where
  "vec_times n M xs = map (\<lambda>k. (\<Sum>j<n. xs ! j * M j k) mod 2) [0..<n]"

text \<open>The cell \<open>(i, k)\<close> of the product of two 91 by 91 matrices over GF(2).\<close>

definition gf2_product :: "(nat \<Rightarrow> nat \<Rightarrow> int) \<Rightarrow> (nat \<Rightarrow> nat \<Rightarrow> int) \<Rightarrow> nat \<Rightarrow> nat \<Rightarrow> int" where
  "gf2_product A B i k = (\<Sum>j<91. A i j * B j k) mod 2"

text \<open>
  A concrete run: the matrix whose rows 0..90 are the unit rows, with rows 0 and 1
  exchanged, and the stages the unit rows go through.
\<close>

definition unit_stage :: "nat \<Rightarrow> int list list" where
  "unit_stage t = map (\<lambda>i. map (\<lambda>c. if i < 91 \<and> (c = i \<or> (i < t \<and> c = 91 + i)) then 1 else 0)
                                [0..<182]) [0..<174]"

definition m_swapped :: "int list list" where
  "m_swapped = map (\<lambda>i. map (\<lambda>c. if i < 91 \<and> c = (if i = 0 then 1 else if i = 1 then 0 else i)
                                   then 1 else 0) [0..<182]) [0..<174]"

definition m_zeros :: "int list list" where
  "m_zeros = replicate 174 (replicate 182 0)"

definition which_id :: "int list" where
  "which_id = map int [0..<174]"

section \<open>Properties of the CRC\<close>

lemma length_xor_fold:
  "length (fold (\<lambda>j msg. msg[i + j := (msg ! (i + j) + crc_div ! j) smod 2]) js msg) = length msg"
  by (induction js arbitrary: msg) auto

lemma length_crc_xor_div [simp]: "length (crc_xor_div i msg) = length msg"
  by (simp add: crc_xor_div_def length_xor_fold)

lemma nth_xor_fold:
  "i + k \<le> length msg \<Longrightarrow> p < length msg \<Longrightarrow>
   fold (\<lambda>j msg. msg[i + j := (msg ! (i + j) + crc_div ! j) smod 2]) [0..<k] msg ! p =
     (if i \<le> p \<and> p < i + k then (msg ! p + crc_div ! (p - i)) smod 2 else msg ! p)"
proof (induction k arbitrary: p)
  case 0
  then show ?case by simp
next
  case (Suc k)
  let ?F = "fold (\<lambda>j msg. msg[i + j := (msg ! (i + j) + crc_div ! j) smod 2]) [0..<k] msg"
  have len: "length ?F = length msg" by (rule length_xor_fold)
  have ih: "\<And>q. q < length msg \<Longrightarrow> ?F ! q =
     (if i \<le> q \<and> q < i + k then (msg ! q + crc_div ! (q - i)) smod 2 else msg ! q)"
    using Suc by simp
  have ik: "i + k < length msg" using Suc.prems by simp
  show ?case
  proof (cases "p = i + k")
    case True
    then show ?thesis using ik len ih [of "i + k"] by simp
  next
    case False
    then show ?thesis using Suc.prems len ih [of p] by (auto simp: nth_list_update)
  qed
qed

lemma nth_crc_xor_div:
  "i + 15 \<le> length msg \<Longrightarrow> p < length msg \<Longrightarrow>
   crc_xor_div i msg ! p =
     (if i \<le> p \<and> p < i + 15 then (msg ! p + crc_div ! (p - i)) smod 2 else msg ! p)"
  unfolding crc_xor_div_def by (rule nth_xor_fold)

lemma crc_div_bit: "j < 15 \<Longrightarrow> crc_div ! j = 0 \<or> crc_div ! j = 1"
  unfolding crc_div_def
  by (simp add: nth_Cons' )

lemma bit_add_smod:
  "(x = 0 \<or> x = 1) \<Longrightarrow> (d = 0 \<or> d = 1) \<Longrightarrow> (x + d :: int) smod 2 = (x + d) mod 2"
  by (auto simp: signed_modulo_int_def)

lemma is_bits_nth: "is_bits xs \<Longrightarrow> p < length xs \<Longrightarrow> xs ! p = 0 \<or> xs ! p = 1"
  by (simp add: is_bits_def list_all_length)

lemma nth_crc_xor_div_bits:
  assumes "is_bits c" "k + 15 \<le> length c" "p < length c"
  shows "crc_xor_div k c ! p =
        (if k \<le> p \<and> p < k + 15 then (c ! p + crc_div ! (p - k)) mod 2 else c ! p)"
proof (cases "k \<le> p \<and> p < k + 15")
  case True
  have b: "c ! p = 0 \<or> c ! p = 1" using assms by (simp add: is_bits_nth)
  from True have d: "crc_div ! (p - k) = 0 \<or> crc_div ! (p - k) = 1"
    by (intro crc_div_bit) auto
  have "crc_xor_div k c ! p = (c ! p + crc_div ! (p - k)) smod 2"
    using True assms by (simp add: nth_crc_xor_div)
  then show ?thesis using True bit_add_smod [OF b d] by simp
next
  case False
  have "crc_xor_div k c ! p = c ! p"
    using False assms nth_crc_xor_div [of k c p] by auto
  then show ?thesis using False by auto
qed

lemma crc_sweep_alt: "crc_sweep n msg = fold crc_step [0..<n] msg"
  by (simp add: crc_sweep_def crc_step_def [abs_def])

lemma crc_append_eq: "crc_append msg (length msg) = msg @ replicate 14 0"
  by (rule nth_equalityI) (auto simp: crc_append_def nth_append)

lemma is_bits_append: "is_bits (xs @ ys) \<longleftrightarrow> is_bits xs \<and> is_bits ys"
  by (simp add: is_bits_def)

lemma is_bits_zeros: "is_bits (replicate k 0)"
  by (simp add: is_bits_def list_all_length)

lemma length_gf2_add [simp]: "length (gf2_add xs ys) = min (length xs) (length ys)"
  by (simp add: gf2_add_def)

lemma nth_gf2_add:
  "p < length xs \<Longrightarrow> p < length ys \<Longrightarrow> gf2_add xs ys ! p = (xs ! p + ys ! p) mod 2"
  by (simp add: gf2_add_def)

lemma gf2_add_Cons [simp]: "gf2_add (a # xs) (b # ys) = (a + b) mod 2 # gf2_add xs ys"
  by (simp add: gf2_add_def)

lemma gf2_add_Nil [simp]: "gf2_add [] ys = []" "gf2_add xs [] = []"
  by (simp_all add: gf2_add_def)

lemma gf2_add_commute: "gf2_add xs ys = gf2_add ys xs"
  by (rule nth_equalityI) (simp_all add: nth_gf2_add add.commute)

lemma gf2_add_assoc: "gf2_add (gf2_add xs ys) zs = gf2_add xs (gf2_add ys zs)"
  by (rule nth_equalityI) (simp_all add: nth_gf2_add mod_add_left_eq mod_add_right_eq add.assoc)

lemma gf2_add_self: "gf2_add xs xs = replicate (length xs) 0"
  by (rule nth_equalityI) (simp_all add: nth_gf2_add)

lemma gf2_add_zeros:
  assumes "is_bits xs" "length xs \<le> k"
  shows "gf2_add xs (replicate k 0) = xs"
proof (rule nth_equalityI)
  show "length (gf2_add xs (replicate k 0)) = length xs" using assms by simp
next
  fix p assume "p < length (gf2_add xs (replicate k 0))"
  then have p: "p < length xs" "p < k" using assms by simp_all
  then have "xs ! p = 0 \<or> xs ! p = 1" using assms by (simp add: is_bits_nth)
  then show "gf2_add xs (replicate k 0) ! p = xs ! p" using p by (auto simp: nth_gf2_add)
qed

lemma gf2_add_cancel:
  assumes "is_bits xs" "length xs \<le> length ys"
  shows "gf2_add (gf2_add xs ys) ys = xs"
  using assms by (simp add: gf2_add_assoc gf2_add_self gf2_add_zeros)

lemma gf2_add_append:
  "length a = length c \<Longrightarrow> gf2_add (a @ b) (c @ d) = gf2_add a c @ gf2_add b d"
  by (simp add: gf2_add_def)

lemma is_bits_gf2_add: "is_bits (gf2_add xs ys)"
  unfolding is_bits_def list_all_length
proof (intro allI impI)
  fix p assume "p < length (gf2_add xs ys)"
  then have "gf2_add xs ys ! p = (xs ! p + ys ! p) mod 2" by (simp add: nth_gf2_add)
  then show "gf2_add xs ys ! p = 0 \<or> gf2_add xs ys ! p = 1" by presburger
qed

lemma length_crc_step [simp]: "length (crc_step i msg) = length msg"
  by (simp add: crc_step_def)

lemma length_crc_sweep: "length (crc_sweep n msg) = length msg"
proof -
  have "length (fold crc_step js msg) = length msg" for js
    by (induction js arbitrary: msg) simp_all
  then show ?thesis by (simp add: crc_sweep_alt)
qed

lemma ft8_crc_eq_drop:
  "ft8_crc msg (length msg) = drop (length msg) (crc_sweep (length msg) (msg @ replicate 14 0))"
  by (intro nth_equalityI) (simp_all add: ft8_crc_def crc_append_eq length_crc_sweep)

lemma crc_xor_div_Cons:
  assumes "i + 15 \<le> length xs"
  shows "crc_xor_div (Suc i) (a # xs) = a # crc_xor_div i xs"
proof (rule nth_equalityI)
  show "length (crc_xor_div (Suc i) (a # xs)) = length (a # crc_xor_div i xs)" by simp
next
  fix p assume "p < length (crc_xor_div (Suc i) (a # xs))"
  then have p: "p < Suc (length xs)" by simp
  show "crc_xor_div (Suc i) (a # xs) ! p = (a # crc_xor_div i xs) ! p"
  proof (cases p)
    case 0
    then show ?thesis using assms nth_crc_xor_div [of "Suc i" "a # xs" 0] by simp
  next
    case (Suc p')
    then show ?thesis
      using assms p nth_crc_xor_div [of "Suc i" "a # xs" "Suc p'"] nth_crc_xor_div [of i xs p']
      by simp
  qed
qed

lemma crc_step_Cons:
  "i + 15 \<le> length xs \<Longrightarrow> crc_step (Suc i) (a # xs) = a # crc_step i xs"
  by (simp add: crc_step_def crc_xor_div_Cons)

lemma fold_crc_step_Cons:
  "\<forall>i \<in> set js. i + 15 \<le> length xs \<Longrightarrow>
   fold crc_step (map Suc js) (a # xs) = a # fold crc_step js xs"
  by (induction js arbitrary: xs) (simp_all add: crc_step_Cons)

lemma crc_sweep_Suc:
  assumes "length xs = Suc n + 14"
  shows "crc_sweep (Suc n) xs = hd (crc_step 0 xs) # crc_sweep n (tl (crc_step 0 xs))"
proof -
  obtain a ys where ys: "crc_step 0 xs = a # ys" "length ys = n + 14"
    using assms length_crc_step [of 0 xs] by (cases "crc_step 0 xs") simp_all
  have "[0..<Suc n] = 0 # map Suc [0..<n]" by (simp add: upt_conv_Cons map_Suc_upt)
  then have "crc_sweep (Suc n) xs = fold crc_step (map Suc [0..<n]) (a # ys)"
    by (simp add: crc_sweep_alt ys)
  also have "\<dots> = a # fold crc_step [0..<n] ys"
    by (rule fold_crc_step_Cons) (simp add: ys)
  finally show ?thesis by (simp add: ys crc_sweep_alt)
qed

lemma crc_div_length: "length crc_div = 15"
  by (simp add: crc_div_def)

lemma crc_div_hd: "hd crc_div = 1" "crc_div ! 0 = 1"
  by (simp_all add: crc_div_def)

lemma is_bits_crc_div: "is_bits crc_div"
  by (simp add: crc_div_def is_bits_def)

lemma crc_xor_div_0:
  assumes "is_bits xs" "length xs = Suc n + 14"
  shows "crc_xor_div 0 xs = gf2_add xs (crc_div @ replicate n 0)"
proof (rule nth_equalityI)
  show "length (crc_xor_div 0 xs) = length (gf2_add xs (crc_div @ replicate n 0))"
    using assms by (simp add: crc_div_length)
next
  fix p assume "p < length (crc_xor_div 0 xs)"
  then have p: "p < length xs" by simp
  have b: "xs ! p = 0 \<or> xs ! p = 1" using assms p by (simp add: is_bits_nth)
  have "crc_xor_div 0 xs ! p = (if p < 15 then (xs ! p + crc_div ! p) mod 2 else xs ! p)"
    using nth_crc_xor_div_bits [of xs 0 p] assms p by simp
  moreover have "gf2_add xs (crc_div @ replicate n 0) ! p =
      (if p < 15 then (xs ! p + crc_div ! p) mod 2 else xs ! p)"
    using p assms b by (auto simp: nth_gf2_add nth_append crc_div_length)
  ultimately show "crc_xor_div 0 xs ! p = gf2_add xs (crc_div @ replicate n 0) ! p" by simp
qed

lemma is_bits_Cons [simp]: "is_bits (a # xs) \<longleftrightarrow> (a = 0 \<or> a = 1) \<and> is_bits xs"
  by (simp add: is_bits_def)

lemma is_bits_tl: "is_bits xs \<Longrightarrow> is_bits (tl xs)"
  by (cases xs) simp_all

text \<open>One step of the long division and the first step of the sweep.\<close>

lemma crc_step_0:
  assumes "is_bits xs" "length xs = Suc n + 14"
  shows "crc_step 0 xs =
         0 # tl (if hd xs = 1 then gf2_add xs (crc_div @ replicate n 0) else xs)"
proof -
  obtain a ys where xs: "xs = a # ys" using assms(2) by (cases xs) simp_all
  have a: "a = 0 \<or> a = 1" using assms(1) xs by simp
  obtain d ds where g: "crc_div @ replicate n 0 = d # ds" "d = 1"
    by (simp add: crc_div_def)
  show ?thesis
  proof (cases "a = 1")
    case True
    then have "crc_step 0 xs = gf2_add xs (crc_div @ replicate n 0)"
      using crc_xor_div_0 [OF assms] xs by (simp add: crc_step_def)
    then show ?thesis using True xs g by simp
  next
    case False
    then have "a = 0" using a by simp
    then show ?thesis using xs by (simp add: crc_step_def)
  qed
qed

lemma crc_sweep_is_division:
  "is_bits xs \<Longrightarrow> length xs = n + 14 \<Longrightarrow>
   crc_sweep n xs = replicate n 0 @ snd (gf2_divide crc_div n xs)"
proof (induction n arbitrary: xs)
  case 0
  then show ?case by (simp add: crc_sweep_def)
next
  case (Suc n)
  define ys where "ys = (if hd xs = 1 then gf2_add xs (crc_div @ replicate n 0) else xs)"
  have len: "length xs = Suc n + 14" using Suc.prems by simp
  have st: "crc_step 0 xs = 0 # tl ys" unfolding ys_def using Suc.prems(1) len by (rule crc_step_0)
  have "is_bits ys" using Suc.prems(1) by (simp add: ys_def is_bits_gf2_add)
  then have b: "is_bits (tl ys)" by (rule is_bits_tl)
  have l: "length (tl ys) = n + 14" using len by (simp add: ys_def crc_div_length)
  have "crc_sweep (Suc n) xs = 0 # crc_sweep n (tl ys)"
    using crc_sweep_Suc [OF len] st by simp
  also have "crc_sweep n (tl ys) = replicate n 0 @ snd (gf2_divide crc_div n (tl ys))"
    using b l by (rule Suc.IH)
  finally show ?case by (simp add: ys_def Let_def split: prod.split)
qed

lemma length_gf2_times:
  "g \<noteq> [] \<Longrightarrow> length (gf2_times q g) = length q + length g - 1"
  by (induction q) (auto simp: Suc_leI)

lemma is_bits_gf2_times: "is_bits (gf2_times q g)"
  by (cases q) (simp_all add: is_bits_gf2_add is_bits_zeros)

lemma gf2_times_hd:
  assumes "a = 0 \<or> a = 1"
  shows "gf2_times (a # q) crc_div =
         a # tl (gf2_add (map (\<lambda>x. a * x) crc_div @ replicate (length q) 0)
                         (0 # gf2_times q crc_div))"
  using assms by (auto simp: crc_div_def)

lemma scale_one: "map ((*) (1 :: int)) g = g"
  by (induction g) simp_all

lemma scale_zero: "map ((*) (0 :: int)) g = replicate (length g) 0"
  by (induction g) simp_all

lemma scale_one_pad:
  "map (\<lambda>x. (1 :: int) * x) crc_div @ replicate n 0 = crc_div @ replicate n 0"
  by (simp add: scale_one)

lemma const_zero_pad:
  "map (\<lambda>x. 0 :: int) crc_div @ replicate n 0 = replicate (n + 15) 0"
  by (rule nth_equalityI) (auto simp: nth_append crc_div_length)

lemma times_zero_pad:
  "map ((*) (0 :: int)) crc_div @ replicate n 0 = replicate (n + 15) 0"
  by (rule nth_equalityI) (auto simp: nth_append crc_div_length)

lemmas scale_zero_pad = const_zero_pad times_zero_pad

lemma is_bits_Nil [simp]: "is_bits []"
  by (simp add: is_bits_def)

text \<open>The division identity: dividend = quotient times divisor plus remainder.\<close>

lemma gf2_divide_identity:
  "is_bits xs \<Longrightarrow> length xs = n + 14 \<Longrightarrow> gf2_divide crc_div n xs = (q, r) \<Longrightarrow>
   length q = n \<and> is_bits q \<and> length r = 14 \<and> is_bits r \<and>
   xs = gf2_add (gf2_times q crc_div) (replicate n 0 @ r)"
proof (induction n arbitrary: xs q r)
  case 0
  then show ?case by (simp add: crc_div_length gf2_add_commute gf2_add_zeros)
next
  case (Suc n)
  let ?G = "crc_div @ replicate n 0"
  define ys where "ys = (if hd xs = 1 then gf2_add xs ?G else xs)"
  obtain a xs' where xs: "xs = a # xs'" using Suc.prems(2) by (cases xs) simp_all
  have a: "a = 0 \<or> a = 1" and bx': "is_bits xs'" using Suc.prems(1) xs by simp_all
  obtain q' where q': "gf2_divide crc_div n (tl ys) = (q', r)" "q = a # q'"
    using Suc.prems(3) xs by (auto simp: ys_def Let_def split: prod.splits)
  have bys: "is_bits ys" using Suc.prems(1) by (simp add: ys_def is_bits_gf2_add)
  then have b: "is_bits (tl ys)" by (rule is_bits_tl)
  have ly: "length ys = Suc n + 14" using Suc.prems(2) by (simp add: ys_def crc_div_length)
  then have l: "length (tl ys) = n + 14" by simp
  have hd0: "ys = 0 # tl ys"
  proof (cases "a = 1")
    case True
    then show ?thesis using xs by (simp add: ys_def crc_div_def)
  next
    case False
    then show ?thesis using a xs by (simp add: ys_def)
  qed
  note ih = Suc.IH [OF b l q'(1)]
  let ?T = "gf2_times q' crc_div"
  let ?S = "map (\<lambda>x. a * x) crc_div @ replicate (length q') 0"
  have lq: "length q' = n" using ih by simp
  have "gf2_add (gf2_times q crc_div) (replicate (Suc n) 0 @ r) =
        gf2_add (gf2_add ?S (0 # ?T)) (0 # replicate n 0 @ r)"
    by (simp add: q'(2))
  also have "\<dots> = gf2_add ?S (gf2_add (0 # ?T) (0 # replicate n 0 @ r))"
    by (rule gf2_add_assoc)
  also have "gf2_add (0 # ?T) (0 # replicate n 0 @ r) = 0 # tl ys"
    using ih by simp
  also have "0 # tl ys = ys" using hd0 by simp
  also have "gf2_add ?S ys = xs"
  proof (cases "a = 1")
    case True
    then have "?S = ?G" using scale_one_pad [of n] by (simp add: lq)
    moreover have "ys = gf2_add xs ?G" using True xs by (simp add: ys_def)
    ultimately show ?thesis
      using gf2_add_cancel [of xs ?G] Suc.prems(1,2)
      by (simp add: gf2_add_commute crc_div_length)
  next
    case False
    then have a0: "a = 0" using a by simp
    then have "?S = replicate (Suc n + 14) 0"
      by (simp add: lq scale_zero_pad)
    moreover have "ys = xs" using a0 xs by (simp add: ys_def)
    ultimately show ?thesis
      using gf2_add_zeros [of xs "Suc n + 14"] Suc.prems(1,2) by (simp add: gf2_add_commute)
  qed
  finally have "xs = gf2_add (gf2_times q crc_div) (replicate (Suc n) 0 @ r)" by simp
  then show ?case using ih q'(2) a lq by simp
qed

text \<open>Dividing a multiple of the generator gives the factor back and leaves nothing.\<close>

lemma gf2_divide_multiple:
  "is_bits q \<Longrightarrow> gf2_divide crc_div (length q) (gf2_times q crc_div) = (q, replicate 14 0)"
proof (induction q)
  case Nil
  then show ?case by (simp add: crc_div_length)
next
  case (Cons a q)
  then have a: "a = 0 \<or> a = 1" and bq: "is_bits q" by simp_all
  let ?T = "gf2_times q crc_div"
  let ?G = "crc_div @ replicate (length q) 0"
  have lT: "length ?T = length q + 14"
    using length_gf2_times [of crc_div q] by (simp add: crc_div_length crc_div_def)
  have bT: "is_bits (0 # ?T)" by (simp add: is_bits_gf2_times)
  have rest: "tl (if hd (gf2_times (a # q) crc_div) = 1
                  then gf2_add (gf2_times (a # q) crc_div) ?G
                  else gf2_times (a # q) crc_div) = ?T"
  proof (cases "a = 1")
    case True
    then have t: "gf2_times (a # q) crc_div = gf2_add ?G (0 # ?T)"
      by (simp add: scale_one)
    have "hd (gf2_add ?G (0 # ?T)) = 1" by (simp add: crc_div_def)
    moreover have "gf2_add (gf2_add ?G (0 # ?T)) ?G = 0 # ?T"
      using gf2_add_cancel [OF bT, of ?G] lT
      by (simp add: gf2_add_commute [of ?G] crc_div_length)
    ultimately show ?thesis by (simp add: t del: gf2_times.simps)
  next
    case False
    then have a0: "a = 0" using a by simp
    then have "gf2_times (a # q) crc_div = gf2_add (replicate (length q + 15) 0) (0 # ?T)"
      by (simp add: scale_zero_pad)
    also have "\<dots> = 0 # ?T"
      using gf2_add_zeros [OF bT, of "length q + 15"] lT by (simp add: gf2_add_commute)
    finally show ?thesis by (simp del: gf2_times.simps)
  qed
  have "hd (gf2_times (a # q) crc_div) = a"
    by (simp only: gf2_times_hd [OF a, of q] list.sel)
  then show ?case using rest Cons.IH [OF bq] by (simp add: Let_def del: gf2_times.simps)
qed

lemma ft8_crc_is_remainder:
  assumes "is_bits msg"
  shows "ft8_crc msg (length msg) = gf2_remainder crc_div (msg @ replicate 14 0)"
proof -
  have "is_bits (msg @ replicate 14 0)" using assms by (simp add: is_bits_append is_bits_zeros)
  then have "crc_sweep (length msg) (msg @ replicate 14 0) =
      replicate (length msg) 0 @ snd (gf2_divide crc_div (length msg) (msg @ replicate 14 0))"
    by (rule crc_sweep_is_division) simp
  then show ?thesis
    using ft8_crc_eq_drop [of msg] by (simp add: gf2_remainder_def crc_div_length)
qed

lemma ft8_crc_multiple:
  assumes "is_bits msg"
  shows "\<exists>q. is_bits q \<and> length q = length msg \<and>
             gf2_times q crc_div = msg @ ft8_crc msg (length msg)"
proof -
  let ?n = "length msg"
  let ?xs = "msg @ replicate 14 0"
  obtain q r where d: "gf2_divide crc_div ?n ?xs = (q, r)" by (cases "gf2_divide crc_div ?n ?xs")
  have bx: "is_bits ?xs" using assms by (simp add: is_bits_append is_bits_zeros)
  have id: "length q = ?n" "is_bits q" "length r = 14" "is_bits r"
    "?xs = gf2_add (gf2_times q crc_div) (replicate ?n 0 @ r)"
    using gf2_divide_identity [OF bx _ d] by simp_all
  have r: "ft8_crc msg ?n = r"
    using ft8_crc_is_remainder [OF assms] d by (simp add: gf2_remainder_def crc_div_length)
  have lT: "length (gf2_times q crc_div) = ?n + 14"
    using length_gf2_times [of crc_div q] id(1) by (simp add: crc_div_length crc_div_def)
  have "gf2_times q crc_div = gf2_add (gf2_add (gf2_times q crc_div) (replicate ?n 0 @ r))
                                      (replicate ?n 0 @ r)"
    using gf2_add_cancel [of "gf2_times q crc_div" "replicate ?n 0 @ r"] lT id(3)
    by (simp add: is_bits_gf2_times)
  also have "\<dots> = gf2_add ?xs (replicate ?n 0 @ r)" using id(5) by simp
  also have "\<dots> = gf2_add msg (replicate ?n 0) @ gf2_add (replicate 14 0) r"
    by (rule gf2_add_append) simp
  also have "\<dots> = msg @ r"
    using gf2_add_zeros [OF assms, of ?n] gf2_add_zeros [OF id(4), of 14] id(3)
    by (simp add: gf2_add_commute [of "replicate 14 0"])
  finally show ?thesis using id(1,2) r by auto
qed

text \<open>
  C5. For every bit sequence \<open>msg\<close>, the polynomial \<open>msg\<close> followed by the 14 bits of
  \<open>ft8_crc msg\<close> is a multiple of the generator: its division by the generator leaves
  the remainder zero, and the quotient times the generator gives it back.
\<close>

theorem ft8_crc_round_trip:
  assumes "is_bits msg"
  shows "gf2_remainder crc_div (msg @ ft8_crc msg (length msg)) = replicate 14 0 \<and>
         gf2_times (gf2_quotient crc_div (msg @ ft8_crc msg (length msg))) crc_div =
           msg @ ft8_crc msg (length msg)"
proof -
  obtain q where q: "is_bits q" "length q = length msg"
    "gf2_times q crc_div = msg @ ft8_crc msg (length msg)"
    using ft8_crc_multiple [OF assms] by blast
  have "length (msg @ ft8_crc msg (length msg)) = length msg + 14"
    using length_gf2_times [of crc_div q] q(2,3) by (simp add: crc_div_length crc_div_def)
  then have n: "Suc (length (msg @ ft8_crc msg (length msg))) - length crc_div = length q"
    using q(2) by (simp add: crc_div_length)
  have "gf2_divide crc_div (length q) (msg @ ft8_crc msg (length msg)) = (q, replicate 14 0)"
    using gf2_divide_multiple [OF q(1)] q(3) by simp
  then show ?thesis
    unfolding gf2_remainder_def gf2_quotient_def n using q(3) by simp
qed

theorem ft8_crc_round_trip_witness:
  "is_bits [1, 0, 1, 1] \<and>
   ft8_crc [1, 0, 1, 1] 4 = [0, 0, 0, 0, 0, 0, 1, 0, 1, 1, 0, 0, 1, 1] \<and>
   gf2_remainder crc_div ([1, 0, 1, 1] @ [0, 0, 0, 0, 0, 0, 1, 0, 1, 1, 0, 0, 1, 1])
     = replicate 14 0 \<and>
   gf2_times (gf2_quotient crc_div ([1, 0, 1, 1] @ [0, 0, 0, 0, 0, 0, 1, 0, 1, 1, 0, 0, 1, 1]))
     crc_div = [1, 0, 1, 1] @ [0, 0, 0, 0, 0, 0, 1, 0, 1, 1, 0, 0, 1, 1] \<and>
   gf2_remainder crc_div ([1, 0, 1, 1] @ replicate 14 0)
     = [0, 0, 0, 0, 0, 0, 1, 0, 1, 1, 0, 0, 1, 1]"
proof -
  have z: "gf2_remainder crc_div ([1, 0, 1, 1] @ replicate 14 0)
     = [0, 0, 0, 0, 0, 0, 1, 0, 1, 1, 0, 0, 1, 1]" by code_simp
  have b: "is_bits [1, 0, 1, 1]" by (simp add: is_bits_def)
  have c: "ft8_crc [1, 0, 1, 1] 4 = [0, 0, 0, 0, 0, 0, 1, 0, 1, 1, 0, 0, 1, 1]" by code_simp
  have l: "length [1, 0, 1, 1 :: int] = 4" by simp
  from ft8_crc_round_trip [OF b] show ?thesis unfolding l c using b c z by blast
qed

text \<open>
  C9, as the specification states it: the CRC of the 77-bit message with a single 1 in
  position 0 would be \<open>[0,0,1,0,0,1,1,1,0,1,0,1,1,1]\<close>. The code computes another value.
\<close>

theorem ft8_crc_unit_message_counterexample:
  "ft8_crc (1 # replicate 76 0) 77 \<noteq> [0, 0, 1, 0, 0, 1, 1, 1, 0, 1, 0, 1, 1, 1]"
  by code_simp

text \<open>
  C9, amended: the CRC of that message is the remainder of the division of a 1 followed
  by 90 zeros, \<open>[0,1,1,0,0,0,1,0,0,0,1,0,1,0]\<close>; the 14 generator bits of 0x2757 are the
  CRC of the one-bit message \<open>[1]\<close>.
\<close>

theorem ft8_crc_unit_message:
  "ft8_crc (1 # replicate 76 0) 77 = [0, 1, 1, 0, 0, 0, 1, 0, 0, 0, 1, 0, 1, 0] \<and>
   ft8_crc [1] 1 = [1, 0, 0, 1, 1, 1, 0, 1, 0, 1, 0, 1, 1, 1]"
  by code_simp

section \<open>Properties of the iteration loop\<close>

lemma and_then_Inr [simp]: "and_then (Inr v) f = f v"
  by (simp add: and_then_def)

lemma and_then_Inl [simp]: "and_then (Inl x) f = Inl x"
  by (simp add: and_then_def)

lemma and_then_eq_Inr:
  "and_then r f = Inr y \<longleftrightarrow> (\<exists>v. r = Inr v \<and> f v = Inr y)"
  by (cases r) simp_all

lemma count_fold_bounds:
  "s \<le> fold (\<lambda>j score. if P j then score + 1 else score) js (s::int) \<and>
   fold (\<lambda>j score. if P j then score + 1 else score) js s \<le> s + int (length js)"
proof (induction js arbitrary: s)
  case Nil
  then show ?case by simp
next
  case (Cons j js)
  show ?case
  proof (cases "P j")
    case True
    then show ?thesis using Cons [of "s + 1"] by simp
  next
    case False
    then show ?thesis using Cons [of s] by simp
  qed
qed

lemma ldpc_check_bounds: "0 \<le> ldpc_check Nm cw \<and> ldpc_check Nm cw \<le> 83"
  using count_fold_bounds [of 0 "\<lambda>j. check_parity Nm cw j = 0" "[0..<83]"]
  by (simp add: ldpc_check_def)

lemma decode_iteration_cases:
  assumes "decode_iteration Nm chk hard upd s b = Inr r"
  obtains s1 cw where "chk s = Inr s1" "hard s1 = Inr cw" "ldpc_check Nm cw = 83"
      "r = Return (cw, 83)"
  | s1 cw s2 where "chk s = Inr s1" "hard s1 = Inr cw" "ldpc_check Nm cw \<noteq> 83"
      "upd s1 = Inr s2" "r = Continue s2 (record_best cw (ldpc_check Nm cw) b)"
  using assms unfolding decode_iteration_def
  by (auto simp: and_then_eq_Inr Let_def split: if_splits)

lemma decode_loop_early_exit:
  "chk s = Inr s1 \<Longrightarrow> hard s1 = Inr cw \<Longrightarrow> ldpc_check Nm cw = 83 \<Longrightarrow>
   decode_loop Nm chk hard upd (Suc n) s b = Inr (cw, 83)"
  by (simp add: decode_iteration_def)

lemma record_best_mono: "snd b \<le> snd (record_best cw score b)"
  by (simp add: record_best_def)

lemma decode_loop_result:
  "decode_loop Nm chk hard upd n s b = Inr r \<Longrightarrow>
   r = b \<or> (fst r \<in> set (hard_decisions Nm chk hard upd n s) \<and> snd r = ldpc_check Nm (fst r))"
proof (induction n arbitrary: s b)
  case 0
  then show ?case by simp
next
  case (Suc n)
  from Suc.prems obtain it where it: "decode_iteration Nm chk hard upd s b = Inr it"
    and rest: "(case it of Return res \<Rightarrow> Inr res
                | Continue s' b' \<Rightarrow> decode_loop Nm chk hard upd n s' b') = Inr r"
    by (auto simp: and_then_eq_Inr)
  from it show ?case
  proof (cases rule: decode_iteration_cases)
    case (1 s1 cw)
    with rest show ?thesis by auto
  next
    case (2 s1 cw s2)
    with rest have "decode_loop Nm chk hard upd n s2 (record_best cw (ldpc_check Nm cw) b) = Inr r"
      by simp
    from Suc.IH [OF this] 2 show ?thesis
      by (auto simp: record_best_def split: if_splits)
  qed
qed

lemma decode_loop_score_83:
  assumes "decode_loop Nm chk hard upd n s b = Inr r" "snd b \<noteq> 83" "snd r = 83"
  shows "ldpc_check Nm (fst r) = 83"
  using decode_loop_result [OF assms(1)] assms(2,3) by auto

lemma decode_loop_score_is_check:
  "decode_loop Nm chk hard upd n s b = Inr r \<Longrightarrow>
   snd b = ldpc_check Nm (fst b) \<or> (0 < n \<and> snd b < 0) \<Longrightarrow>
   snd r = ldpc_check Nm (fst r)"
proof (induction n arbitrary: s b)
  case 0
  then show ?case by simp
next
  case (Suc n)
  from Suc.prems(1) obtain it where it: "decode_iteration Nm chk hard upd s b = Inr it"
    and rest: "(case it of Return res \<Rightarrow> Inr res
                | Continue s' b' \<Rightarrow> decode_loop Nm chk hard upd n s' b') = Inr r"
    by (auto simp: and_then_eq_Inr)
  from it show ?case
  proof (cases rule: decode_iteration_cases)
    case (1 s1 cw)
    with rest show ?thesis by auto
  next
    case (2 s1 cw s2)
    let ?b' = "record_best cw (ldpc_check Nm cw) b"
    from 2 rest have run: "decode_loop Nm chk hard upd n s2 ?b' = Inr r" by simp
    have "snd ?b' = ldpc_check Nm (fst ?b')"
      using Suc.prems(2) ldpc_check_bounds [of Nm cw] by (auto simp: record_best_def)
    then show ?thesis using Suc.IH [OF run] by simp
  qed
qed

lemma decode_loop_mono:
  "decode_loop Nm chk hard upd n s b = Inr r \<Longrightarrow> snd b \<le> 83 \<Longrightarrow> snd b \<le> snd r \<and> snd r \<le> 83"
proof (induction n arbitrary: s b)
  case 0
  then show ?case by simp
next
  case (Suc n)
  from Suc.prems(1) obtain it where it: "decode_iteration Nm chk hard upd s b = Inr it"
    and rest: "(case it of Return res \<Rightarrow> Inr res
                | Continue s' b' \<Rightarrow> decode_loop Nm chk hard upd n s' b') = Inr r"
    by (auto simp: and_then_eq_Inr)
  from it show ?case
  proof (cases rule: decode_iteration_cases)
    case (1 s1 cw)
    with rest Suc.prems(2) show ?thesis by auto
  next
    case (2 s1 cw s2)
    let ?b' = "record_best cw (ldpc_check Nm cw) b"
    from 2 rest have run: "decode_loop Nm chk hard upd n s2 ?b' = Inr r" by simp
    have "snd ?b' \<le> 83"
      using Suc.prems(2) ldpc_check_bounds [of Nm cw] by (auto simp: record_best_def)
    from Suc.IH [OF run this] record_best_mono [of b cw "ldpc_check Nm cw"]
    show ?thesis by simp
  qed
qed

lemma Max_insert_max:
  "finite S \<Longrightarrow> Max (insert (max a c) S) = Max (insert (a::int) (insert c S))"
proof (cases "S = {}")
  case True
  then show ?thesis by simp
next
  case False
  assume "finite S"
  with False show ?thesis by (simp add: max.assoc)
qed

lemma decode_loop_exhausted:
  "decode_loop Nm chk hard upd n s b = Inr r \<Longrightarrow>
   \<forall>cw \<in> set (hard_decisions Nm chk hard upd n s). ldpc_check Nm cw \<noteq> 83 \<Longrightarrow>
   snd r = Max (insert (snd b) (ldpc_check Nm ` set (hard_decisions Nm chk hard upd n s)))"
proof (induction n arbitrary: s b)
  case 0
  then show ?case by simp
next
  case (Suc n)
  from Suc.prems(1) obtain it where it: "decode_iteration Nm chk hard upd s b = Inr it"
    and rest: "(case it of Return res \<Rightarrow> Inr res
                | Continue s' b' \<Rightarrow> decode_loop Nm chk hard upd n s' b') = Inr r"
    by (auto simp: and_then_eq_Inr)
  from it show ?case
  proof (cases rule: decode_iteration_cases)
    case (1 s1 cw)
    then have "cw \<in> set (hard_decisions Nm chk hard upd (Suc n) s)" by simp
    with Suc.prems(2) 1(3) show ?thesis by blast
  next
    case (2 s1 cw s2)
    let ?b' = "record_best cw (ldpc_check Nm cw) b"
    let ?H = "hard_decisions Nm chk hard upd n s2"
    from 2 rest have run: "decode_loop Nm chk hard upd n s2 ?b' = Inr r" by simp
    have hd: "hard_decisions Nm chk hard upd (Suc n) s = cw # ?H"
      using 2 by simp
    have "\<forall>cw \<in> set ?H. ldpc_check Nm cw \<noteq> 83"
      using Suc.prems(2) unfolding hd by simp
    from Suc.IH [OF run this]
    have "snd r = Max (insert (snd ?b') (ldpc_check Nm ` set ?H))" .
    moreover have "snd ?b' = max (snd b) (ldpc_check Nm cw)"
      by (simp add: record_best_def)
    ultimately have "snd r = Max (insert (snd b) (insert (ldpc_check Nm cw) (ldpc_check Nm ` set ?H)))"
      by (simp add: Max_insert_max)
    then show ?thesis unfolding hd by simp
  qed
qed

lemma decode_loop_total:
  assumes chk: "\<And>s. I s \<Longrightarrow> \<exists>s1. chk s = Inr s1 \<and> J s1"
    and hard: "\<And>s1. J s1 \<Longrightarrow> \<exists>cw. hard s1 = Inr cw"
    and upd: "\<And>s1. J s1 \<Longrightarrow> \<exists>s2. upd s1 = Inr s2 \<and> I s2"
  shows "I s \<Longrightarrow> \<exists>r. decode_loop Nm chk hard upd n s b = Inr r"
proof (induction n arbitrary: s b)
  case 0
  then show ?case by simp
next
  case (Suc n)
  from chk [OF Suc.prems] obtain s1 where s1: "chk s = Inr s1" "J s1" by blast
  from hard [OF s1(2)] obtain cw where cw: "hard s1 = Inr cw" by blast
  from upd [OF s1(2)] obtain s2 where s2: "upd s1 = Inr s2" "I s2" by blast
  from Suc.IH [OF s2(2)] s1 cw s2 show ?case
    by (simp add: decode_iteration_def Let_def)
qed

section \<open>Properties of \<open>fast_tanh\<close>\<close>

lemma tanh_den_pos: "135135 \<le> tanh_den x"
proof -
  define t where "t = x * x"
  have t: "0 \<le> t" by (simp add: t_def)
  then have "0 \<le> t * (62370 + t * (3150 + t * 28))"
    by (intro mult_nonneg_nonneg add_nonneg_nonneg) simp_all
  then show ?thesis by (simp add: tanh_den_def t_def)
qed

lemma tanh_num_odd: "tanh_num (- x) = - tanh_num x"
  by (simp add: tanh_num_def)

lemma tanh_den_even: "tanh_den (- x) = tanh_den x"
  by (simp add: tanh_den_def)

lemma fast_tanh_eq:
  "fast_tanh x = Inr (if x < -7.6 then -0.999 else if x > 7.6 then 0.999
                      else tanh_num x / tanh_den x)"
proof -
  have "tanh_den x \<noteq> 0" using tanh_den_pos [of x] by linarith
  moreover have "fast_tanh x = (if x < -7.6 then Inr (-0.999) else if x > 7.6 then Inr 0.999
                      else fdiv (tanh_num x) (tanh_den x))"
    by (simp add: fast_tanh_def Let_def tanh_num_def tanh_den_def)
  ultimately show ?thesis by (simp add: fdiv_def)
qed

lemma tanh_cert_low:
  "501 / 500 * tanh_den x - tanh_num x =
   (13540527 / 1638400) * (4 - x)^7 +
   (40729689 / 1638400) * x * (4 - x)^6 +
   (60018651 / 1638400) * x^2 * (4 - x)^5 +
   (10437273 / 327680) * x^3 * (4 - x)^4 +
   (6007113 / 327680) * x^4 * (4 - x)^3 +
   (11873547 / 1638400) * x^5 * (4 - x)^2 +
   (16893933 / 8192000) * x^6 * (4 - x) +
   (2727643 / 8192000) * x^7"
  unfolding tanh_den_def tanh_num_def
  by algebra

lemma tanh_cert_high:
  "501 / 500 * tanh_den x - tanh_num x =
   (1704776875 / 2448880128) * (38 / 5 - x)^7 +
   (13170695125 / 2448880128) * (x - 4) * (38 / 5 - x)^6 +
   (16987235125 / 816293376) * (x - 4)^2 * (38 / 5 - x)^5 +
   (111775549025 / 2448880128) * (x - 4)^3 * (38 / 5 - x)^4 +
   (145942127345 / 2448880128) * (x - 4)^4 * (38 / 5 - x)^3 +
   (178913002457 / 4081466880) * (x - 4)^5 * (38 / 5 - x)^2 +
   (907292911357 / 61222003200) * (x - 4)^6 * (38 / 5 - x) +
   (3935007427 / 61222003200) * (x - 4)^7"
  unfolding tanh_den_def tanh_num_def
  by algebra

lemma tanh_cert_core:
  "999 / 1000 * tanh_den x - tanh_num x =
   (75851776 / 5859375) * (15 / 4 - x)^7 +
   (2216101888 / 52734375) * x * (15 / 4 - x)^6 +
   (1130463488 / 17578125) * x^2 * (15 / 4 - x)^5 +
   (199248896 / 3515625) * x^3 * (15 / 4 - x)^4 +
   (323321488 / 10546875) * x^4 * (15 / 4 - x)^3 +
   (169427888 / 17578125) * x^5 * (15 / 4 - x)^2 +
   (25344046 / 17578125) * x^6 * (15 / 4 - x) +
   (842659 / 52734375) * x^7"
  unfolding tanh_den_def tanh_num_def
  by algebra

lemma tanh_bound_low:
  assumes "0 \<le> x" "x \<le> 4"
  shows "tanh_num x \<le> 501 / 500 * tanh_den x"
proof -
  have "0 \<le> 501 / 500 * tanh_den x - tanh_num x"
    unfolding tanh_cert_low
    by (intro add_nonneg_nonneg mult_nonneg_nonneg zero_le_power) (use assms in simp_all)
  then show ?thesis by simp
qed

lemma tanh_bound_high:
  assumes "4 \<le> x" "x \<le> 38 / 5"
  shows "tanh_num x \<le> 501 / 500 * tanh_den x"
proof -
  have "0 \<le> 501 / 500 * tanh_den x - tanh_num x"
    unfolding tanh_cert_high
    by (intro add_nonneg_nonneg mult_nonneg_nonneg zero_le_power) (use assms in simp_all)
  then show ?thesis by simp
qed

lemma tanh_bound_core:
  assumes "0 \<le> x" "x \<le> 15 / 4"
  shows "tanh_num x \<le> 999 / 1000 * tanh_den x"
proof -
  have "0 \<le> 999 / 1000 * tanh_den x - tanh_num x"
    unfolding tanh_cert_core
    by (intro add_nonneg_nonneg mult_nonneg_nonneg zero_le_power) (use assms in simp_all)
  then show ?thesis by simp
qed

lemma tanh_num_nonneg: "0 \<le> x \<Longrightarrow> 0 \<le> tanh_num x"
proof -
  assume x: "0 \<le> x"
  define t where "t = x * x"
  have t: "0 \<le> t" by (simp add: t_def)
  have "0 \<le> x * (135135 + t * (17325 + t * (378 + t)))"
    using x t by (intro mult_nonneg_nonneg add_nonneg_nonneg) simp_all
  then show ?thesis by (simp add: tanh_num_def t_def)
qed

lemma tanh_ratio_bound:
  assumes "0 \<le> c" "\<And>y. 0 \<le> y \<Longrightarrow> y \<le> u \<Longrightarrow> tanh_num y \<le> c * tanh_den y" "\<bar>x\<bar> \<le> u"
  shows "- c \<le> tanh_num x / tanh_den x \<and> tanh_num x / tanh_den x \<le> c"
proof -
  have d: "0 < tanh_den x" using tanh_den_pos [of x] by linarith
  have "\<bar>tanh_num x\<bar> \<le> c * tanh_den x"
  proof (cases "0 \<le> x")
    case True
    then show ?thesis using assms(2) [of x] assms(3) tanh_num_nonneg [of x] by simp
  next
    case False
    then have "0 \<le> - x" "- x \<le> u" using assms(3) by simp_all
    from assms(2) [OF this] tanh_num_nonneg [OF this(1)] show ?thesis
      by (simp add: tanh_num_odd tanh_den_even)
  qed
  then have "- (c * tanh_den x) \<le> tanh_num x" "tanh_num x \<le> c * tanh_den x"
    by linarith+
  then show ?thesis using d by (simp add: pos_divide_le_eq pos_le_divide_eq)
qed

lemma tanh_bound_whole:
  assumes "0 \<le> y" "y \<le> 38 / 5"
  shows "tanh_num y \<le> 501 / 500 * tanh_den y"
  using assms tanh_bound_low [of y] tanh_bound_high [of y] by (cases "y \<le> 4") simp_all

text \<open>
  C7, as the specification states it: the value would lie in \<open>[-0.999, 0.999]\<close> for
  every \<open>x\<close>. At \<open>x = 6\<close>, inside the interval where the rational function is used,
  the value is above 1.
\<close>

theorem fast_tanh_range_counterexample:
  "fast_tanh 6 = Inr (7772274 / 7769223) \<and> (0.999 :: real) < 7772274 / 7769223"
  by (simp add: fast_tanh_def fdiv_def Let_def)

text \<open>
  C7, amended: \<open>fast_tanh\<close> returns \<open>-0.999\<close> below \<open>-7.6\<close>, \<open>0.999\<close> above \<open>7.6\<close> and
  the rational function in between; the value lies in \<open>[-1.002, 1.002]\<close> for every
  \<open>x\<close>, and in \<open>[-0.999, 0.999]\<close> when \<open>\<bar>x\<bar> \<le> 3.75\<close>.
\<close>

theorem fast_tanh_cases:
  "(x < - 7.6 \<longrightarrow> fast_tanh x = Inr (- 0.999)) \<and>
   (7.6 < x \<longrightarrow> fast_tanh x = Inr 0.999) \<and>
   (- 7.6 \<le> x \<and> x \<le> 7.6 \<longrightarrow>
      fast_tanh x = Inr (x * (135135 + x\<^sup>2 * (17325 + x\<^sup>2 * (378 + x\<^sup>2)))
                          / (135135 + x\<^sup>2 * (62370 + x\<^sup>2 * (3150 + 28 * x\<^sup>2))))) \<and>
   (\<exists>y. fast_tanh x = Inr y \<and> - 1.002 \<le> y \<and> y \<le> 1.002 \<and>
        (\<bar>x\<bar> \<le> 3.75 \<longrightarrow> - 0.999 \<le> y \<and> y \<le> 0.999))"
proof (intro conjI impI)
  assume "x < - 7.6"
  then show "fast_tanh x = Inr (- 0.999)" by (simp add: fast_tanh_eq)
next
  assume "7.6 < x"
  then show "fast_tanh x = Inr 0.999" by (simp add: fast_tanh_eq)
next
  assume "- 7.6 \<le> x \<and> x \<le> 7.6"
  then show "fast_tanh x = Inr (x * (135135 + x\<^sup>2 * (17325 + x\<^sup>2 * (378 + x\<^sup>2)))
                          / (135135 + x\<^sup>2 * (62370 + x\<^sup>2 * (3150 + 28 * x\<^sup>2))))"
    by (simp add: fast_tanh_eq tanh_num_def tanh_den_def power2_eq_square mult.commute)
next
  define y where "y = (if x < -7.6 then -0.999 else if x > 7.6 then 0.999
                       else tanh_num x / tanh_den x)"
  have y: "fast_tanh x = Inr y" unfolding y_def by (rule fast_tanh_eq)
  have wide: "- 1.002 \<le> y \<and> y \<le> 1.002"
  proof (cases "\<bar>x\<bar> \<le> 7.6")
    case True
    then have "- (501 / 500) \<le> tanh_num x / tanh_den x \<and> tanh_num x / tanh_den x \<le> 501 / 500"
      by (intro tanh_ratio_bound [where u = "38 / 5"] tanh_bound_whole) simp_all
    moreover from True have "\<not> x < - 7.6" "\<not> x > 7.6" by (simp_all add: abs_le_iff)
    then have "y = tanh_num x / tanh_den x" unfolding y_def by (simp only: if_False)
    ultimately have "- (501 / 500) \<le> y" "y \<le> 501 / 500" by simp_all
    then show ?thesis by simp
  next
    case False
    then have "x < - 7.6 \<or> x > 7.6" by (simp add: abs_le_iff not_le) linarith
    then have "y = - 0.999 \<or> y = 0.999" unfolding y_def by auto
    then show ?thesis by auto
  qed
  have core: "\<bar>x\<bar> \<le> 3.75 \<longrightarrow> - 0.999 \<le> y \<and> y \<le> 0.999"
  proof
    assume small: "\<bar>x\<bar> \<le> 3.75"
    then have "- (999 / 1000) \<le> tanh_num x / tanh_den x \<and> tanh_num x / tanh_den x \<le> 999 / 1000"
      by (intro tanh_ratio_bound [where u = "15 / 4"] tanh_bound_core) simp_all
    moreover from small have "\<not> x < - 7.6" "\<not> x > 7.6" by (simp_all add: abs_le_iff)
    then have "y = tanh_num x / tanh_den x" unfolding y_def by (simp only: if_False)
    ultimately have "- (999 / 1000) \<le> y" "y \<le> 999 / 1000" by simp_all
    then show "- 0.999 \<le> y \<and> y \<le> 0.999" by simp
  qed
  show "\<exists>y. fast_tanh x = Inr y \<and> - 1.002 \<le> y \<and> y \<le> 1.002 \<and>
        (\<bar>x\<bar> \<le> 3.75 \<longrightarrow> - 0.999 \<le> y \<and> y \<le> 0.999)"
    using y wide core by blast
qed

theorem fast_tanh_cases_witness:
  "fast_tanh (- 8) = Inr (- 0.999) \<and> fast_tanh 8 = Inr 0.999 \<and>
   fast_tanh 1 = Inr (152839 / 200683) \<and>
   (\<exists>y. fast_tanh 1 = Inr y \<and> - 0.999 \<le> y \<and> y \<le> 0.999)"
proof -
  have a: "fast_tanh (- 8) = Inr (- 0.999)" using fast_tanh_cases [of "- 8"] by simp
  have b: "fast_tanh 8 = Inr 0.999" using fast_tanh_cases [of 8] by simp
  have c: "fast_tanh 1 = Inr (152839 / 200683)" using fast_tanh_cases [of 1] by simp
  have "\<bar>1 :: real\<bar> \<le> 3.75" by simp
  then have d: "\<exists>y. fast_tanh 1 = Inr y \<and> - 0.999 \<le> y \<and> y \<le> 0.999"
    using fast_tanh_cases [of 1] by blast
  from a b c d show ?thesis by blast
qed

section \<open>Neither decoder faults\<close>

lemma for_each_inv:
  assumes "I s" and "\<And>i s. i \<in> set js \<Longrightarrow> I s \<Longrightarrow> \<exists>s'. body i s = Inr s' \<and> I s'"
  shows "\<exists>s'. for_each js body s = Inr s' \<and> I s'"
  using assms
proof (induction js arbitrary: s)
  case Nil
  then show ?case by simp
next
  case (Cons j js)
  from Cons.prems(2) [of j s] Cons.prems(1) obtain s1 where s1: "body j s = Inr s1" "I s1"
    by auto
  from Cons.IH [OF s1(2)] Cons.prems(2) s1(1) show ?case by simp
qed

lemma fold_inv:
  assumes "I s" and "\<And>i s. i \<in> set js \<Longrightarrow> I s \<Longrightarrow> I (f i s)"
  shows "I (fold f js s)"
  using assms by (induction js arbitrary: s) simp_all

lemma map_result_total:
  assumes "\<And>x. x \<in> set xs \<Longrightarrow> \<exists>y. f x = Inr y \<and> P y"
  shows "\<exists>ys. map_result f xs = Inr ys \<and> length ys = length xs \<and> (\<forall>y \<in> set ys. P y)"
  using assms
proof (induction xs)
  case Nil
  then show ?case by simp
next
  case (Cons x xs)
  from Cons.prems [of x] obtain y where y: "f x = Inr y" "P y" by auto
  from Cons.IH Cons.prems obtain ys where
    ys: "map_result f xs = Inr ys" "length ys = length xs" "\<forall>y \<in> set ys. P y"
    by auto
  from y ys show ?case by simp
qed

subsection \<open>The decoder on log-likelihoods never faults\<close>

lemma fast_tanh_total: "\<exists>t. fast_tanh x = Inr t"
  by (simp add: fast_tanh_eq)

lemma log_check_product_total: "\<exists>a. log_check_product Nm m j i1 = Inr a"
proof -
  have "\<exists>a. for_each [0..<7] (\<lambda>ii2 a.
       let i2 = Nm ! j ! ii2 - 1
       in if i2 \<ge> 0 \<and> i2 \<noteq> i1
          then and_then (fast_tanh (m ! j ! nat i2 / 2)) (\<lambda>t. Inr (a * t))
          else Inr a) 1 = Inr a \<and> True"
  proof (rule for_each_inv)
    fix i :: nat and s :: real
    obtain t where "fast_tanh (m ! j ! nat (Nm ! j ! i - 1) / 2) = Inr t"
      using fast_tanh_total by blast
    then show "\<exists>s'. (let i2 = Nm ! j ! i - 1
       in if i2 \<ge> 0 \<and> i2 \<noteq> i1
          then and_then (fast_tanh (m ! j ! nat i2 / 2)) (\<lambda>t. Inr (s * t))
          else Inr s) = Inr s' \<and> True"
      by (simp add: Let_def)
  qed simp
  then show ?thesis by (simp add: log_check_product_def)
qed

lemma log_check_msg_eq:
  "log_check_msg a =
     Inr (if a \<ge> 0.999 then 7.6 else if a \<le> -0.999 then -7.6 else ln ((1 + a) / (1 - a)))"
proof (cases "a \<ge> 0.999 \<or> a \<le> -0.999")
  case True
  then show ?thesis by (auto simp: log_check_msg_def)
next
  case False
  then have a: "- 0.999 < a" "a < 0.999" by simp_all
  then have "0 < 1 + a" "0 < 1 - a" by simp_all
  then have "1 - a \<noteq> 0" "0 < (1 + a) / (1 - a)" by simp_all
  then show ?thesis using False by (simp add: log_check_msg_def fdiv_def flog_def not_le)
qed

lemma log_check_update_total: "\<exists>e'. log_check_update Nm m e = Inr e'"
proof -
  let ?inner = "\<lambda>j ii1 e.
         let i1 = Nm ! j ! ii1 - 1
         in if i1 < 0 then Inr e
            else and_then (log_check_product Nm m j i1) (\<lambda>a.
                 and_then (log_check_msg a) (\<lambda>tmp. Inr (mat_set e j (nat i1) tmp)))"
  have inner: "\<exists>e'. ?inner j ii1 e = Inr e' \<and> True" for j ii1 and e :: matrix
  proof -
    obtain a where "log_check_product Nm m j (Nm ! j ! ii1 - 1) = Inr a"
      using log_check_product_total by blast
    then show ?thesis by (simp add: Let_def log_check_msg_eq)
  qed
  have row: "\<exists>e'. for_each [0..<7] (?inner j) e = Inr e' \<and> True" for j and e :: matrix
    by (rule for_each_inv) (use inner in simp_all)
  have "\<exists>e'. for_each [0..<83] (\<lambda>j e. for_each [0..<7] (?inner j) e) e = Inr e' \<and> True"
    by (rule for_each_inv) (use row in simp_all)
  then show ?thesis by (simp add: log_check_update_def)
qed

lemma ldpc_decode_log_total: "\<exists>r. ldpc_decode_log Nm Mn junk iters mem = Inr r"
proof -
  have "\<exists>b. decode_loop Nm (log_chk Nm) (log_dec Mn (llcodeword mem)) (log_upd Mn (llcodeword mem))
              (nat iters) (init_m (llcodeword mem), init_e) (junk, - 1) = Inr b"
  proof (rule decode_loop_total [where I = "\<lambda>_. True" and J = "\<lambda>_. True"])
    fix s :: "matrix \<times> matrix"
    obtain e' where "log_check_update Nm (fst s) (snd s) = Inr e'"
      using log_check_update_total by blast
    then show "\<exists>s1. log_chk Nm s = Inr s1 \<and> True" by (simp add: log_chk_def)
  qed (simp_all add: log_dec_def log_upd_def)
  then show ?thesis by (auto simp: ldpc_decode_log_def Let_def)
qed

subsection \<open>The decoder on probabilities never faults\<close>

lemma llr_to_prob_eq: "llr_to_prob x = Inr (exp x / (1 + exp x))"
proof -
  have "0 < 1 + exp x" by (simp add: add_pos_pos)
  then have "1 + exp x \<noteq> 0" by simp
  then show ?thesis by (simp add: llr_to_prob_def fdiv_def Let_def)
qed

lemma logistic_unit: "0 \<le> exp x / (1 + exp x) \<and> exp x / (1 + exp x) \<le> (1::real)"
proof -
  have "0 < 1 + exp x" by (simp add: add_pos_pos)
  then show ?thesis by (simp add: pos_divide_le_eq)
qed

lemma prob_codeword_total: "\<exists>c. prob_codeword ll = Inr c \<and> unit_vec c"
proof -
  have "\<exists>ys. map_result (\<lambda>i. llr_to_prob (ll ! i)) [0..<174] = Inr ys \<and>
          length ys = length [0..<174] \<and> (\<forall>y \<in> set ys. 0 \<le> y \<and> y \<le> 1)"
    by (rule map_result_total) (simp add: llr_to_prob_eq logistic_unit)
  then show ?thesis by (simp add: prob_codeword_def unit_vec_def)
qed

lemma unit_vec_nth: "unit_vec v \<Longrightarrow> i < 174 \<Longrightarrow> 0 \<le> v ! i \<and> v ! i \<le> 1"
  by (simp add: unit_vec_def)

lemma unit_mat_nth: "unit_mat a \<Longrightarrow> j < 83 \<Longrightarrow> i < 174 \<Longrightarrow> 0 \<le> a ! j ! i \<and> a ! j ! i \<le> 1"
  by (simp add: unit_mat_def unit_vec_def all_set_conv_all_nth)

lemma unit_mat_init_m: "unit_vec c \<Longrightarrow> unit_mat (init_m c)"
  by (auto simp: unit_mat_def unit_vec_def init_m_def)

lemma unit_mat_init_e: "unit_mat init_e"
  by (auto simp: unit_mat_def unit_vec_def init_e_def)

lemma unit_vec_update: "unit_vec v \<Longrightarrow> 0 \<le> x \<Longrightarrow> x \<le> 1 \<Longrightarrow> unit_vec (v[i := x])"
  unfolding unit_vec_def using set_update_subset_insert [of v i x] by auto

lemma unit_mat_set: "unit_mat a \<Longrightarrow> 0 \<le> x \<Longrightarrow> x \<le> 1 \<Longrightarrow> unit_mat (mat_set a j i x)"
proof (cases "j < length a")
  case True
  assume a: "unit_mat a" and x: "0 \<le> x" "x \<le> 1"
  from a True have "unit_vec (a ! j)" by (simp add: unit_mat_def)
  then have "unit_vec ((a ! j)[i := x])" using x by (rule unit_vec_update)
  then show ?thesis
    using a set_update_subset_insert [of a j "(a ! j)[i := x]"]
    by (auto simp: unit_mat_def mat_set_def)
next
  case False
  assume "unit_mat a"
  with False show ?thesis by (simp add: mat_set_def list_update_beyond)
qed

lemma Nm_entry: "Nm_ok Nm \<Longrightarrow> j < 83 \<Longrightarrow> ii < 7 \<Longrightarrow> 0 \<le> Nm ! j ! ii \<and> Nm ! j ! ii \<le> 174"
  by (simp add: Nm_ok_def all_set_conv_all_nth)

lemma Mn_entry: "Mn_ok Mn \<Longrightarrow> i < 174 \<Longrightarrow> j < 3 \<Longrightarrow> 1 \<le> Mn ! i ! j \<and> Mn ! i ! j \<le> 83"
  by (simp add: Mn_ok_def all_set_conv_all_nth)

lemma prob_check_product_bound:
  assumes "Nm_ok Nm" "unit_mat m" "j < 83"
  shows "\<bar>prob_check_product Nm m j i1\<bar> \<le> 1"
  unfolding prob_check_product_def
proof (rule fold_inv [where I = "\<lambda>a. \<bar>a\<bar> \<le> 1"])
  fix ii2 :: nat and a :: real
  assume ii2: "ii2 \<in> set [0..<7]" and a: "\<bar>a\<bar> \<le> 1"
  show "\<bar>let i2 = Nm ! j ! ii2 - 1
        in if 0 \<le> i2 \<and> i2 \<noteq> i1 then a * (1 - 2 * (1 - m ! j ! nat i2)) else a\<bar> \<le> 1"
  proof (cases "0 \<le> Nm ! j ! ii2 - 1 \<and> Nm ! j ! ii2 - 1 \<noteq> i1")
    case True
    have "Nm ! j ! ii2 \<le> 174" using Nm_entry [OF assms(1,3), of ii2] ii2 by simp
    with True have "nat (Nm ! j ! ii2 - 1) < 174" by simp
    from unit_mat_nth [OF assms(2,3) this]
    have "\<bar>1 - 2 * (1 - m ! j ! nat (Nm ! j ! ii2 - 1))\<bar> \<le> 1" by (simp add: abs_le_iff)
    with a have "\<bar>a\<bar> * \<bar>1 - 2 * (1 - m ! j ! nat (Nm ! j ! ii2 - 1))\<bar> \<le> 1 * 1"
      by (intro mult_mono) simp_all
    with True show ?thesis by (simp add: Let_def abs_mult)
  next
    case False
    with a show ?thesis by (auto simp: Let_def)
  qed
qed simp

lemma unit_mat_prob_check_update:
  assumes "Nm_ok Nm" "unit_mat m" "unit_mat e"
  shows "unit_mat (prob_check_update Nm m e)"
  unfolding prob_check_update_def
proof (rule fold_inv [where I = unit_mat])
  fix j :: nat and e :: matrix
  assume j: "j \<in> set [0..<83]" and e: "unit_mat e"
  show "unit_mat (fold (\<lambda>ii1 e. let i1 = Nm ! j ! ii1 - 1
                      in if i1 < 0 then e
                         else mat_set e j (nat i1) (0.5 + 0.5 * prob_check_product Nm m j i1))
         [0..<7] e)"
  proof (rule fold_inv [where I = unit_mat])
    fix ii1 :: nat and e :: matrix
    assume e: "unit_mat e"
    have "\<bar>prob_check_product Nm m j (Nm ! j ! ii1 - 1)\<bar> \<le> 1"
      using prob_check_product_bound [OF assms(1,2)] j by simp
    then have "0 \<le> 0.5 + 0.5 * prob_check_product Nm m j (Nm ! j ! ii1 - 1)"
      "0.5 + 0.5 * prob_check_product Nm m j (Nm ! j ! ii1 - 1) \<le> 1"
      by (simp_all add: abs_le_iff)
    then show "unit_mat (let i1 = Nm ! j ! ii1 - 1
                      in if i1 < 0 then e
                         else mat_set e j (nat i1) (0.5 + 0.5 * prob_check_product Nm m j i1))"
      using e by (simp add: Let_def unit_mat_set)
  qed (rule e)
qed (rule assms)

lemma prob_of_q_total:
  assumes "0 \<le> q0" "0 \<le> q1"
  shows "\<exists>p. prob_of_q q0 q1 = Inr p \<and> 0 \<le> p \<and> p \<le> 1"
proof (cases "q0 = 0")
  case True
  then show ?thesis by (simp add: prob_of_q_def)
next
  case False
  with assms have r: "0 \<le> q1 / q0" by simp
  then have "1 + q1 / q0 \<noteq> 0" "0 \<le> 1 / (1 + q1 / q0)" "1 / (1 + q1 / q0) \<le> 1"
    by (simp_all add: add_nonneg_eq_0_iff)
  with False show ?thesis by (simp add: prob_of_q_def fdiv_def)
qed

lemma Mn_index: "Mn_ok Mn \<Longrightarrow> i < 174 \<Longrightarrow> j < 3 \<Longrightarrow> nat (Mn ! i ! j - 1) < 83"
  using Mn_entry [of Mn i j] by linarith

lemma prob_hard_bit_total:
  assumes "Mn_ok Mn" "unit_vec c" "unit_mat e" "i < 174"
  shows "\<exists>b. prob_hard_bit Mn c e i = Inr b"
proof -
  define q where "q = fold (\<lambda>j (q0, q1). let j2 = nat (Mn ! i ! j - 1)
                            in (q0 * e ! j2 ! i, q1 * (1 - e ! j2 ! i)))
          [0..<3] (c ! i, 1 - c ! i)"
  have "0 \<le> fst q \<and> 0 \<le> snd q"
    unfolding q_def
  proof (rule fold_inv [where I = "\<lambda>q. 0 \<le> fst q \<and> 0 \<le> snd q"])
    show "0 \<le> fst (c ! i, 1 - c ! i) \<and> 0 \<le> snd (c ! i, 1 - c ! i)"
      using unit_vec_nth [OF assms(2,4)] by simp
  next
    fix j :: nat and q :: "real \<times> real"
    assume j: "j \<in> set [0..<3]" and q: "0 \<le> fst q \<and> 0 \<le> snd q"
    have "nat (Mn ! i ! j - 1) < 83" using Mn_index [OF assms(1,4), of j] j by simp
    from unit_mat_nth [OF assms(3) this assms(4)] q
    show "0 \<le> fst (case q of (q0, q1) \<Rightarrow> let j2 = nat (Mn ! i ! j - 1)
                            in (q0 * e ! j2 ! i, q1 * (1 - e ! j2 ! i))) \<and>
          0 \<le> snd (case q of (q0, q1) \<Rightarrow> let j2 = nat (Mn ! i ! j - 1)
                            in (q0 * e ! j2 ! i, q1 * (1 - e ! j2 ! i)))"
      by (cases q) (simp add: Let_def)
  qed
  then obtain p where "prob_of_q (fst q) (snd q) = Inr p"
    using prob_of_q_total [of "fst q" "snd q"] by blast
  then show ?thesis
    unfolding prob_hard_bit_def q_def [symmetric] by (cases q) simp
qed

lemma prob_hard_total:
  assumes "Mn_ok Mn" "unit_vec c" "unit_mat e"
  shows "\<exists>cw. prob_hard Mn c e = Inr cw"
proof -
  have "\<exists>ys. map_result (prob_hard_bit Mn c e) [0..<174] = Inr ys \<and>
          length ys = length [0..<174] \<and> (\<forall>y \<in> set ys. True)"
    by (rule map_result_total) (use prob_hard_bit_total [OF assms] in simp)
  then show ?thesis by (auto simp: prob_hard_def)
qed

lemma prob_var_msg_total:
  assumes "Mn_ok Mn" "unit_vec c" "unit_mat e" "i < 174"
  shows "\<exists>p. prob_var_msg Mn c e i j1 = Inr p \<and> 0 \<le> p \<and> p \<le> 1"
proof -
  define q where "q = fold (\<lambda>ji2 (q0, q1). let j2 = Mn ! i ! ji2 - 1
                              in if j1 \<noteq> j2
                                 then (q0 * e ! nat j2 ! i, q1 * (1 - e ! nat j2 ! i))
                                 else (q0, q1))
          [0..<3] (c ! i, 1 - c ! i)"
  have "0 \<le> fst q \<and> 0 \<le> snd q"
    unfolding q_def
  proof (rule fold_inv [where I = "\<lambda>q. 0 \<le> fst q \<and> 0 \<le> snd q"])
    show "0 \<le> fst (c ! i, 1 - c ! i) \<and> 0 \<le> snd (c ! i, 1 - c ! i)"
      using unit_vec_nth [OF assms(2,4)] by simp
  next
    fix j :: nat and q :: "real \<times> real"
    assume j: "j \<in> set [0..<3]" and q: "0 \<le> fst q \<and> 0 \<le> snd q"
    have "nat (Mn ! i ! j - 1) < 83" using Mn_index [OF assms(1,4), of j] j by simp
    from unit_mat_nth [OF assms(3) this assms(4)] q
    show "0 \<le> fst (case q of (q0, q1) \<Rightarrow> let j2 = Mn ! i ! j - 1
                              in if j1 \<noteq> j2
                                 then (q0 * e ! nat j2 ! i, q1 * (1 - e ! nat j2 ! i))
                                 else (q0, q1)) \<and>
          0 \<le> snd (case q of (q0, q1) \<Rightarrow> let j2 = Mn ! i ! j - 1
                              in if j1 \<noteq> j2
                                 then (q0 * e ! nat j2 ! i, q1 * (1 - e ! nat j2 ! i))
                                 else (q0, q1))"
      by (cases q) (simp add: Let_def)
  qed
  then obtain p where "prob_of_q (fst q) (snd q) = Inr p" "0 \<le> p" "p \<le> 1"
    using prob_of_q_total [of "fst q" "snd q"] by blast
  then show ?thesis
    unfolding prob_var_msg_def q_def [symmetric] by (cases q) simp
qed

lemma prob_var_update_total:
  assumes "Mn_ok Mn" "unit_vec c" "unit_mat e" "unit_mat m"
  shows "\<exists>m'. prob_var_update Mn c e m = Inr m' \<and> unit_mat m'"
  unfolding prob_var_update_def
proof (rule for_each_inv [where I = unit_mat])
  fix i :: nat and m :: matrix
  assume i: "i \<in> set [0..<174]" and m: "unit_mat m"
  show "\<exists>m'. for_each [0..<3] (\<lambda>ji1 m.
         let j1 = Mn ! i ! ji1 - 1
         in and_then (prob_var_msg Mn c e i j1) (\<lambda>p. Inr (mat_set m (nat j1) i p))) m = Inr m'
       \<and> unit_mat m'"
  proof (rule for_each_inv [where I = unit_mat])
    fix ji1 :: nat and m :: matrix
    assume m: "unit_mat m"
    obtain p where "prob_var_msg Mn c e i (Mn ! i ! ji1 - 1) = Inr p" "0 \<le> p" "p \<le> 1"
      using prob_var_msg_total [OF assms(1-3), of i] i by auto
    then show "\<exists>m'. (let j1 = Mn ! i ! ji1 - 1
         in and_then (prob_var_msg Mn c e i j1) (\<lambda>p. Inr (mat_set m (nat j1) i p))) = Inr m'
       \<and> unit_mat m'"
      using m by (simp add: Let_def unit_mat_set)
  qed (rule m)
qed (rule assms)

lemma ldpc_decode_total:
  assumes "Nm_ok Nm" "Mn_ok Mn"
  shows "\<exists>r. ldpc_decode Nm Mn junk iters mem = Inr r"
proof -
  obtain c where c: "prob_codeword (llcodeword mem) = Inr c" "unit_vec c"
    using prob_codeword_total by blast
  have "\<exists>b. decode_loop Nm (prob_chk Nm) (prob_dec Mn c) (prob_upd Mn c)
              (nat iters) (init_m c, init_e) (junk, - 1) = Inr b"
  proof (rule decode_loop_total [where I = "\<lambda>s. unit_mat (fst s) \<and> unit_mat (snd s)"
        and J = "\<lambda>s. unit_mat (fst s) \<and> unit_mat (snd s)"])
    fix s :: "matrix \<times> matrix"
    assume "unit_mat (fst s) \<and> unit_mat (snd s)"
    then show "\<exists>s1. prob_chk Nm s = Inr s1 \<and> unit_mat (fst s1) \<and> unit_mat (snd s1)"
      using unit_mat_prob_check_update [OF assms(1)] by (simp add: prob_chk_def)
  next
    fix s :: "matrix \<times> matrix"
    assume "unit_mat (fst s) \<and> unit_mat (snd s)"
    then show "\<exists>cw. prob_dec Mn c s = Inr cw"
      using prob_hard_total [OF assms(2) c(2)] by (simp add: prob_dec_def)
  next
    fix s :: "matrix \<times> matrix"
    assume s: "unit_mat (fst s) \<and> unit_mat (snd s)"
    then obtain m' where "prob_var_update Mn c (snd s) (fst s) = Inr m'" "unit_mat m'"
      using prob_var_update_total [OF assms(2) c(2)] by blast
    with s show "\<exists>s2. prob_upd Mn c s = Inr s2 \<and> unit_mat (fst s2) \<and> unit_mat (snd s2)"
      by (simp add: prob_upd_def)
  next
    show "unit_mat (fst (init_m c, init_e)) \<and> unit_mat (snd (init_m c, init_e))"
      using c(2) by (simp add: unit_mat_init_m unit_mat_init_e)
  qed
  then show ?thesis using c(1) by (auto simp: ldpc_decode_def)
qed

section \<open>Two runs on small tables\<close>

lemma Nm_small_ok: "Nm_ok Nm_small"
  by (simp add: Nm_ok_def Nm_small_def)

lemma Mn_small_ok: "Mn_ok Mn_small"
  by (simp add: Mn_ok_def Mn_small_def)

lemma for_each_pure: "for_each js (\<lambda>i s. Inr (f i s)) s = Inr (fold f js s)"
  by (induction js arbitrary: s) simp_all

declare upt_rec_numeral [simp del]

lemma upt7: "[0..<7] = [0, 1, 2, 3, 4, 5, 6]"
  by code_simp

lemma upt3: "[0..<3] = [0, 1, 2]"
  by code_simp

lemma fold_count_all:
  "(\<And>j. j \<in> set js \<Longrightarrow> P j) \<Longrightarrow>
   fold (\<lambda>j score. if P j then score + 1 else score) js (s :: int) = s + int (length js)"
  by (induction js arbitrary: s) simp_all

lemma upt_split2: "2 \<le> n \<Longrightarrow> [0..<n] = [0, Suc 0] @ [2..<n]"
  by (simp add: upt_conv_Cons numeral_2_eq_2)

lemma check_parity_empty_row:
  assumes "Nm ! j = replicate 7 0"
  shows "check_parity Nm cw j = 0"
  unfolding check_parity_def
  by (rule fold_inv [where I = "\<lambda>x. x = 0"]) (simp_all add: assms)

lemma Nm_small_row: "2 \<le> j \<Longrightarrow> j < 83 \<Longrightarrow> Nm_small ! j = replicate 7 0"
  by (simp add: Nm_small_def nth_Cons')

lemma check_parity_small_0: "check_parity Nm_small cw 0 = cw ! 0"
  by (simp add: check_parity_def Nm_small_def upt7)

lemma check_parity_small_1: "check_parity Nm_small cw (Suc 0) = cw ! 0 XOR cw ! Suc 0"
  by (simp add: check_parity_def Nm_small_def upt7)

lemma ldpc_check_small:
  "ldpc_check Nm_small cw =
     81 + (if cw ! 0 = 0 then 1 else 0) + (if cw ! 0 XOR cw ! 1 = 0 then 1 else 0)"
proof -
  have "fold (\<lambda>j score. if check_parity Nm_small cw j = 0 then score + 1 else score) [2..<83] s
        = s + int (length [2..<83])" for s
    by (rule fold_count_all) (simp add: check_parity_empty_row Nm_small_row)
  then show ?thesis
    by (simp add: ldpc_check_def upt_split2 [of 83] check_parity_small_0 check_parity_small_1)
qed

lemma for_each_append:
  "for_each (xs @ ys) body s = and_then (for_each xs body s) (for_each ys body)"
  by (induction xs arbitrary: s) (simp_all split: sum.splits)

lemma for_each_skip:
  "(\<And>j s. j \<in> set js \<Longrightarrow> body j s = Inr s) \<Longrightarrow> for_each js body s = Inr s"
  by (induction js) simp_all

lemma fold_skip:
  "(\<And>j s. j \<in> set js \<Longrightarrow> f j s = s) \<Longrightarrow> fold f js s = s"
  by (induction js) simp_all

lemma init_m_nth: "j < 83 \<Longrightarrow> i < 174 \<Longrightarrow> init_m c ! j ! i = c ! i"
  by (simp add: init_m_def)

lemma init_e_nth: "j < 83 \<Longrightarrow> i < 174 \<Longrightarrow> init_e ! j ! i = 0"
  by (simp add: init_e_def)

lemma length_init_e: "length init_e = 83" "j < 83 \<Longrightarrow> length (init_e ! j) = 174"
  by (simp_all add: init_e_def)

lemma fast_tanh_0: "fast_tanh 0 = Inr 0"
  by (simp add: fast_tanh_eq tanh_num_def)

lemma log_check_msg_0: "log_check_msg 0 = Inr 0"
  by (simp add: log_check_msg_eq)

lemma log_check_msg_1: "log_check_msg 1 = Inr 7.6"
  by (simp add: log_check_msg_eq)

lemma Nm_small_0: "Nm_small ! 0 = [1, 0, 0, 0, 0, 0, 0]"
  by (simp add: Nm_small_def)

lemma Nm_small_1: "Nm_small ! Suc 0 = [1, 2, 0, 0, 0, 0, 0]"
  by (simp add: Nm_small_def)

lemma log_check_update_small:
  assumes "c ! 0 = 0" "fast_tanh (c ! Suc 0 / 2) = Inr t" "log_check_msg t = Inr v"
  shows "log_check_update Nm_small (init_m c) e =
     Inr (mat_set (mat_set (mat_set e 0 0 7.6) (Suc 0) 0 v) (Suc 0) (Suc 0) 0)"
proof -
  let ?inner = "\<lambda>j ii1 e.
         let i1 = Nm_small ! j ! ii1 - 1
         in if i1 < 0 then Inr e
            else and_then (log_check_product Nm_small (init_m c) j i1) (\<lambda>a.
                 and_then (log_check_msg a) (\<lambda>tmp. Inr (mat_set e j (nat i1) tmp)))"
  have rest: "for_each [2..<83] (\<lambda>j e. for_each [0..<7] (?inner j) e) e' = Inr e'" for e'
    by (rule for_each_skip, rule for_each_skip) (simp add: Nm_small_row)
  have p00: "log_check_product Nm_small (init_m c) 0 0 = Inr 1"
    by (simp add: log_check_product_def upt7 Nm_small_0)
  have p10: "log_check_product Nm_small (init_m c) (Suc 0) 0 = Inr t"
    by (simp add: log_check_product_def upt7 Nm_small_1 init_m_nth assms)
  have p11: "log_check_product Nm_small (init_m c) (Suc 0) 1 = Inr 0"
    by (simp add: log_check_product_def upt7 Nm_small_1 init_m_nth assms fast_tanh_0)
  have r0: "for_each [0..<7] (?inner 0) e' = Inr (mat_set e' 0 0 7.6)" for e'
    by (simp add: upt7 p00 log_check_msg_1 Nm_small_0)
  have r1: "for_each [0..<7] (?inner (Suc 0)) e' =
      Inr (mat_set (mat_set e' (Suc 0) 0 v) (Suc 0) (Suc 0) 0)" for e'
    by (simp add: upt7 p10 p11 log_check_msg_0 assms(3) Nm_small_1)
  show ?thesis
    unfolding log_check_update_def upt_split2 [of 83, simplified] for_each_append
    by (simp only: for_each.simps r0 r1 rest and_then_Inr append.simps sum.case)
qed

lemma length_mat_set [simp]: "length (mat_set a j i v) = length a"
  by (simp add: mat_set_def)

lemma nth_mat_set:
  "j < length a \<Longrightarrow> i < length (a ! j) \<Longrightarrow> j' < length a \<Longrightarrow>
   mat_set a j i v ! j' ! i' = (if j' = j \<and> i' = i then v else a ! j' ! i')"
  by (auto simp: mat_set_def nth_list_update)

lemma length_mat_set_row:
  "j' < length a \<Longrightarrow> length (mat_set a j i v ! j') = length (a ! j')"
  by (cases "j < length a") (auto simp: mat_set_def nth_list_update list_update_beyond)

lemma map_result_nth:
  "map_result f xs = Inr ys \<Longrightarrow> i < length xs \<Longrightarrow> f (xs ! i) = Inr (ys ! i)"
proof (induction xs arbitrary: ys i)
  case Nil
  then show ?case by simp
next
  case (Cons x xs)
  then show ?case by (cases i) (auto split: sum.splits)
qed

lemma Mn_small_0: "Mn_small ! 0 = [1, 1, 1]"
  by (simp add: Mn_small_def)

lemma Mn_small_1: "Mn_small ! Suc 0 = [2, 2, 2]"
  by (simp add: Mn_small_def)

lemma e_log_small_00: "e_log_small v ! 0 ! 0 = 7.6"
  by (simp add: e_log_small_def nth_mat_set length_mat_set_row length_init_e)

lemma e_log_small_11: "e_log_small v ! Suc 0 ! Suc 0 = 0"
  by (simp add: e_log_small_def nth_mat_set length_mat_set_row length_init_e)

lemma log_hard_small_0:
  assumes "c ! 0 = 0"
  shows "log_hard Mn_small c (e_log_small v) ! 0 = 0"
  by (simp add: log_hard_def upt3 Mn_small_0 e_log_small_00 assms)

lemma log_hard_small_1:
  "log_hard Mn_small c (e_log_small v) ! Suc 0 = (if c ! Suc 0 \<le> 0 then 1 else 0)"
  by (simp add: log_hard_def upt3 Mn_small_1 e_log_small_11)

lemma hard_decisions_one:
  "chk s = Inr s1 \<Longrightarrow> hard s1 = Inr cw \<Longrightarrow>
   hard_decisions Nm chk hard upd (Suc 0) s = [cw]"
  by (simp split: sum.splits)

lemma log_hard_decisions_small:
  assumes "c ! 0 = 0" "fast_tanh (c ! Suc 0 / 2) = Inr t" "log_check_msg t = Inr v"
  shows "hard_decisions Nm_small (log_chk Nm_small) (log_dec Mn_small c) (log_upd Mn_small c)
           (Suc 0) (init_m c, init_e) = [log_hard Mn_small c (e_log_small v)]"
  by (rule hard_decisions_one [where ?s1.0 = "(init_m c, e_log_small v)"])
     (simp_all add: log_chk_def log_dec_def log_check_update_small [OF assms] e_log_small_def)

lemma ldpc_check_log_small:
  assumes "c ! 0 = 0"
  shows "ldpc_check Nm_small (log_hard Mn_small c (e_log_small v)) =
           (if c ! Suc 0 \<le> 0 then 82 else 83)"
  by (simp add: ldpc_check_small log_hard_small_0 log_hard_small_1 assms)

lemma prob_check_update_small:
  assumes "c ! 0 = 1 / 2"
  shows "prob_check_update Nm_small (init_m c) init_e = e_prob_small (c ! Suc 0)"
proof -
  let ?inner = "\<lambda>j ii1 e. let i1 = Nm_small ! j ! ii1 - 1
                      in if i1 < 0 then e
                         else mat_set e j (nat i1)
                                (0.5 + 0.5 * prob_check_product Nm_small (init_m c) j i1)"
  have rest: "fold (\<lambda>j e. fold (?inner j) [0..<7] e) [2..<83] e' = e'" for e'
    by (rule fold_skip, rule fold_skip) (simp add: Nm_small_row)
  have p00: "prob_check_product Nm_small (init_m c) 0 0 = 1"
    by (simp add: prob_check_product_def upt7 Nm_small_0)
  have p10: "prob_check_product Nm_small (init_m c) (Suc 0) 0 = 1 - 2 * (1 - c ! Suc 0)"
    by (simp add: prob_check_product_def upt7 Nm_small_1 init_m_nth)
  have p11: "prob_check_product Nm_small (init_m c) (Suc 0) 1 = 0"
    by (simp add: prob_check_product_def upt7 Nm_small_1 init_m_nth assms)
  have r0: "fold (?inner 0) [0..<7] e' = mat_set e' 0 0 1" for e'
    by (simp add: upt7 p00 Nm_small_0)
  have r1: "fold (?inner (Suc 0)) [0..<7] e' =
      mat_set (mat_set e' (Suc 0) 0 (0.5 + 0.5 * (1 - 2 * (1 - c ! Suc 0)))) (Suc 0) (Suc 0) (1 / 2)" for e'
    by (simp add: upt7 p10 p11 Nm_small_1)
  show ?thesis
    unfolding prob_check_update_def upt_split2 [of 83, simplified] fold_append e_prob_small_def
    by (simp only: fold_simps r0 r1 rest append.simps comp_apply)
qed

lemma e_prob_small_00: "e_prob_small p ! 0 ! 0 = 1"
  by (simp add: e_prob_small_def nth_mat_set length_mat_set_row length_init_e)

lemma e_prob_small_11: "e_prob_small p ! Suc 0 ! Suc 0 = 1 / 2"
  by (simp add: e_prob_small_def nth_mat_set length_mat_set_row length_init_e)

lemma prob_hard_bit_small_0:
  assumes "c ! 0 = 1 / 2"
  shows "prob_hard_bit Mn_small c (e_prob_small p) 0 = Inr 0"
  by (simp add: prob_hard_bit_def upt3 Mn_small_0 e_prob_small_00 assms prob_of_q_def fdiv_def)

lemma prob_hard_bit_small_1:
  assumes "0 < c ! Suc 0" "c ! Suc 0 < 1"
  shows "prob_hard_bit Mn_small c (e_prob_small p) (Suc 0) =
           Inr (if c ! Suc 0 \<le> 1 / 2 then 1 else 0)"
proof -
  define x where "x = c ! Suc 0"
  have x: "0 < x" "x < 1" using assms by (simp_all add: x_def)
  have q: "fold (\<lambda>j (q0, q1). let j2 = nat (Mn_small ! Suc 0 ! j - 1)
                 in (q0 * e_prob_small p ! j2 ! Suc 0, q1 * (1 - e_prob_small p ! j2 ! Suc 0)))
            [0..<3] (x, 1 - x) = (x / 8, (1 - x) / 8)"
    by (simp add: upt3 Mn_small_1 e_prob_small_11)
  have r: "(1 - x) / 8 / (x / 8) = (1 - x) / x" "1 + (1 - x) / x = 1 / x"
    using x by (simp_all add: field_simps)
  have nz: "x / 8 \<noteq> 0" "1 / x \<noteq> 0" using x by simp_all
  have d1: "fdiv ((1 - x) / 8) (x / 8) = Inr ((1 - x) / x)"
    unfolding fdiv_def r(1) using nz(1) by (simp only: if_False)
  have d2: "fdiv 1 (1 + (1 - x) / x) = Inr x"
    unfolding fdiv_def r(2) using nz(2) by simp
  have "prob_of_q (x / 8) ((1 - x) / 8) = Inr x"
    unfolding prob_of_q_def using nz(1) by (simp only: if_False d1 d2 and_then_Inr)
  then show ?thesis
    unfolding prob_hard_bit_def x_def [symmetric] q by simp
qed

lemma prob_hard_small:
  assumes "prob_hard Mn_small c (e_prob_small p) = Inr cw"
    and "c ! 0 = 1 / 2" "0 < c ! Suc 0" "c ! Suc 0 < 1"
  shows "ldpc_check Nm_small cw = (if c ! Suc 0 \<le> 1 / 2 then 82 else 83)"
proof -
  have "prob_hard_bit Mn_small c (e_prob_small p) ([0..<174] ! 0) = Inr (cw ! 0)"
    "prob_hard_bit Mn_small c (e_prob_small p) ([0..<174] ! Suc 0) = Inr (cw ! Suc 0)"
    using assms(1) unfolding prob_hard_def by (intro map_result_nth; simp)+
  then have "cw ! 0 = 0" "cw ! Suc 0 = (if c ! Suc 0 \<le> 1 / 2 then 1 else 0)"
    using prob_hard_bit_small_0 [OF assms(2)] prob_hard_bit_small_1 [OF assms(3,4)] by simp_all
  then show ?thesis by (simp add: ldpc_check_small)
qed

lemma prob_codeword_eq:
  "prob_codeword ll = Inr (map (\<lambda>i. exp (ll ! i) / (1 + exp (ll ! i))) [0..<174])"
proof -
  have "map_result (\<lambda>i. Inr (g i)) xs = Inr (map g xs)" for g :: "nat \<Rightarrow> real" and xs
    by (induction xs) simp_all
  then show ?thesis by (simp add: prob_codeword_def llr_to_prob_eq)
qed

section \<open>Properties of the decoders\<close>

lemma hard_decisions_hit:
  "chk s = Inr s1 \<Longrightarrow> hard s1 = Inr cw \<Longrightarrow> ldpc_check Nm cw = 83 \<Longrightarrow>
   hard_decisions Nm chk hard upd (Suc n) s = [cw]"
  by simp

lemma hard_decisions_cont:
  "chk s = Inr s1 \<Longrightarrow> hard s1 = Inr cw \<Longrightarrow> ldpc_check Nm cw \<noteq> 83 \<Longrightarrow> upd s1 = Inr s2 \<Longrightarrow>
   hard_decisions Nm chk hard upd (Suc n) s = cw # hard_decisions Nm chk hard upd n s2"
  by simp

declare hard_decisions.simps(2) [simp del]

lemma decode_loop_hit:
  "decode_loop Nm chk hard upd n s b = Inr r \<Longrightarrow>
   cw \<in> set (hard_decisions Nm chk hard upd n s) \<Longrightarrow> ldpc_check Nm cw = 83 \<Longrightarrow>
   r = (cw, 83)"
proof (induction n arbitrary: s b)
  case 0
  then show ?case by simp
next
  case (Suc n)
  from Suc.prems(1) obtain it where it: "decode_iteration Nm chk hard upd s b = Inr it"
    and rest: "(case it of Return res \<Rightarrow> Inr res
                | Continue s' b' \<Rightarrow> decode_loop Nm chk hard upd n s' b') = Inr r"
    by (auto simp: and_then_eq_Inr)
  from it show ?case
  proof (cases rule: decode_iteration_cases)
    case (1 s1 cw')
    then have "hard_decisions Nm chk hard upd (Suc n) s = [cw']"
      by (intro hard_decisions_hit)
    with Suc.prems(2) have "cw = cw'" by simp
    with 1 rest show ?thesis by simp
  next
    case (2 s1 cw' s2)
    let ?b' = "record_best cw' (ldpc_check Nm cw') b"
    from 2 rest have run: "decode_loop Nm chk hard upd n s2 ?b' = Inr r" by simp
    have hd: "hard_decisions Nm chk hard upd (Suc n) s = cw' # hard_decisions Nm chk hard upd n s2"
      using 2 by (intro hard_decisions_cont)
    from Suc.prems(2,3) 2(3) have "cw \<in> set (hard_decisions Nm chk hard upd n s2)"
      unfolding hd by auto
    from Suc.IH [OF run this Suc.prems(3)] show ?thesis .
  qed
qed

lemma decode_loop_length:
  "decode_loop Nm chk hard upd n s b = Inr r \<Longrightarrow>
   \<forall>cw \<in> set (hard_decisions Nm chk hard upd n s). ldpc_check Nm cw \<noteq> 83 \<Longrightarrow>
   length (hard_decisions Nm chk hard upd n s) = n"
proof (induction n arbitrary: s b)
  case 0
  then show ?case by simp
next
  case (Suc n)
  from Suc.prems(1) obtain it where it: "decode_iteration Nm chk hard upd s b = Inr it"
    and rest: "(case it of Return res \<Rightarrow> Inr res
                | Continue s' b' \<Rightarrow> decode_loop Nm chk hard upd n s' b') = Inr r"
    by (auto simp: and_then_eq_Inr)
  from it show ?case
  proof (cases rule: decode_iteration_cases)
    case (1 s1 cw')
    then have "cw' \<in> set (hard_decisions Nm chk hard upd (Suc n) s)"
      by (simp add: hard_decisions_hit)
    with Suc.prems(2) 1(3) show ?thesis by blast
  next
    case (2 s1 cw' s2)
    let ?b' = "record_best cw' (ldpc_check Nm cw') b"
    from 2 rest have run: "decode_loop Nm chk hard upd n s2 ?b' = Inr r" by simp
    have hd: "hard_decisions Nm chk hard upd (Suc n) s = cw' # hard_decisions Nm chk hard upd n s2"
      using 2 by (intro hard_decisions_cont)
    have "\<forall>cw \<in> set (hard_decisions Nm chk hard upd n s2). ldpc_check Nm cw \<noteq> 83"
      using Suc.prems(2) unfolding hd by simp
    from Suc.IH [OF run this] show ?thesis unfolding hd by simp
  qed
qed

lemma decode_loop_best:
  assumes run: "decode_loop Nm chk hard upd n s b = Inr r"
    and ex: "\<forall>cw \<in> set (hard_decisions Nm chk hard upd n s). ldpc_check Nm cw \<noteq> 83"
    and n: "0 < n" and b: "snd b < 0"
  shows "fst r \<in> set (hard_decisions Nm chk hard upd n s) \<and>
         snd r = ldpc_check Nm (fst r) \<and>
         snd r = Max (ldpc_check Nm ` set (hard_decisions Nm chk hard upd n s))"
proof -
  let ?H = "hard_decisions Nm chk hard upd n s"
  let ?S = "ldpc_check Nm ` set ?H"
  have "length ?H = n" using run ex by (rule decode_loop_length)
  with n have ne: "?S \<noteq> {}" by auto
  have fin: "finite ?S" by simp
  have "Max ?S \<in> ?S" using fin ne by (rule Max_in)
  then have pos: "0 \<le> Max ?S" using ldpc_check_bounds by auto
  have "snd r = Max (insert (snd b) ?S)" using run ex by (rule decode_loop_exhausted)
  also have "\<dots> = max (snd b) (Max ?S)" using fin ne by simp
  also have "\<dots> = Max ?S" using pos b by simp
  finally have m: "snd r = Max ?S" .
  with pos b have "r \<noteq> b" by auto
  with decode_loop_result [OF run] m show ?thesis by simp
qed

lemma ldpc_decode_run:
  assumes "Nm_ok Nm" "Mn_ok Mn"
  obtains c b where "prob_codeword (llcodeword mem) = Inr c" "unit_vec c"
    "decode_loop Nm (prob_chk Nm) (prob_dec Mn c) (prob_upd Mn c) (nat iters)
       (init_m c, init_e) (junk, - 1) = Inr b"
    "ldpc_decode Nm Mn junk iters mem = Inr (mem\<lparr>plain := fst b, ok := snd b\<rparr>)"
    "prob_hard_decisions Nm Mn iters (llcodeword mem) =
       hard_decisions Nm (prob_chk Nm) (prob_dec Mn c) (prob_upd Mn c) (nat iters)
         (init_m c, init_e)"
proof -
  obtain c where c: "prob_codeword (llcodeword mem) = Inr c" "unit_vec c"
    using prob_codeword_total by blast
  obtain r where "ldpc_decode Nm Mn junk iters mem = Inr r"
    using ldpc_decode_total [OF assms] by blast
  then obtain b where "decode_loop Nm (prob_chk Nm) (prob_dec Mn c) (prob_upd Mn c) (nat iters)
       (init_m c, init_e) (junk, - 1) = Inr b"
    using c(1) by (auto simp: ldpc_decode_def and_then_eq_Inr)
  with c that show ?thesis
    by (simp add: ldpc_decode_def prob_hard_decisions_def)
qed

lemma ldpc_decode_log_run:
  obtains b where
    "decode_loop Nm (log_chk Nm) (log_dec Mn (llcodeword mem)) (log_upd Mn (llcodeword mem))
       (nat iters) (init_m (llcodeword mem), init_e) (junk, - 1) = Inr b"
    "ldpc_decode_log Nm Mn junk iters mem = Inr (mem\<lparr>plain := fst b, ok := snd b\<rparr>)"
proof -
  obtain r where "ldpc_decode_log Nm Mn junk iters mem = Inr r"
    using ldpc_decode_log_total by blast
  then obtain b where "decode_loop Nm (log_chk Nm) (log_dec Mn (llcodeword mem))
       (log_upd Mn (llcodeword mem)) (nat iters) (init_m (llcodeword mem), init_e) (junk, - 1) = Inr b"
    by (auto simp: ldpc_decode_log_def and_then_eq_Inr Let_def)
  with that show ?thesis by (simp add: ldpc_decode_log_def Let_def)
qed

subsection \<open>The runs on the small tables\<close>

lemma llcodeword_zero: "llcodeword mem_zero ! 0 = 0" "llcodeword mem_zero ! Suc 0 = 0"
  by (simp_all add: mem_zero_def)

lemma llcodeword_good: "llcodeword mem_good ! 0 = 0" "llcodeword mem_good ! Suc 0 = 20"
  by (simp_all add: mem_good_def)

lemma fast_tanh_10: "fast_tanh 10 = Inr 0.999"
  by (simp add: fast_tanh_eq)

lemma log_check_msg_clamp: "log_check_msg 0.999 = Inr 7.6"
  by (simp add: log_check_msg_eq)

lemma log_run_zero:
  "\<exists>cw. log_hard_decisions Nm_small Mn_small 1 (llcodeword mem_zero) = [cw] \<and>
        ldpc_check Nm_small cw = 82"
proof -
  have ft: "fast_tanh (llcodeword mem_zero ! Suc 0 / 2) = Inr 0"
    by (simp add: llcodeword_zero fast_tanh_0)
  have "log_hard_decisions Nm_small Mn_small 1 (llcodeword mem_zero) =
      [log_hard Mn_small (llcodeword mem_zero) (e_log_small 0)]"
    unfolding log_hard_decisions_def
    using log_hard_decisions_small [OF llcodeword_zero(1) ft log_check_msg_0]
    by simp
  moreover have "ldpc_check Nm_small (log_hard Mn_small (llcodeword mem_zero) (e_log_small 0)) = 82"
    by (simp add: ldpc_check_log_small llcodeword_zero)
  ultimately show ?thesis by blast
qed

lemma log_run_good:
  "\<exists>cw. log_hard_decisions Nm_small Mn_small 1 (llcodeword mem_good) = [cw] \<and>
        ldpc_check Nm_small cw = 83"
proof -
  have ft: "fast_tanh (llcodeword mem_good ! Suc 0 / 2) = Inr 0.999"
    by (simp add: llcodeword_good fast_tanh_eq)
  have "log_hard_decisions Nm_small Mn_small 1 (llcodeword mem_good) =
      [log_hard Mn_small (llcodeword mem_good) (e_log_small 7.6)]"
    unfolding log_hard_decisions_def
    using log_hard_decisions_small [OF llcodeword_good(1) ft log_check_msg_clamp]
    by simp
  moreover have "ldpc_check Nm_small (log_hard Mn_small (llcodeword mem_good) (e_log_small 7.6)) = 83"
    by (simp add: ldpc_check_log_small llcodeword_good)
  ultimately show ?thesis by blast
qed

lemma prob_run_small:
  assumes c: "prob_codeword ll = Inr c" "c ! 0 = 1 / 2" "0 < c ! Suc 0" "c ! Suc 0 < 1"
  shows "\<exists>cw. prob_hard_decisions Nm_small Mn_small 1 ll = [cw] \<and>
        ldpc_check Nm_small cw = (if c ! Suc 0 \<le> 1 / 2 then 82 else 83)"
proof -
  have u: "unit_vec c" using prob_codeword_total [of ll] c(1) by simp
  have e: "prob_check_update Nm_small (init_m c) init_e = e_prob_small (c ! Suc 0)"
    using c(2) by (rule prob_check_update_small)
  have "unit_mat (prob_check_update Nm_small (init_m c) init_e)"
    using Nm_small_ok u by (intro unit_mat_prob_check_update unit_mat_init_m unit_mat_init_e)
  then obtain cw where cw: "prob_hard Mn_small c (e_prob_small (c ! Suc 0)) = Inr cw"
    using prob_hard_total [OF Mn_small_ok u] unfolding e by blast
  have "hard_decisions Nm_small (prob_chk Nm_small) (prob_dec Mn_small c) (prob_upd Mn_small c)
           (Suc 0) (init_m c, init_e) = [cw]"
    by (rule hard_decisions_one [where ?s1.0 = "(init_m c, e_prob_small (c ! Suc 0))"])
       (simp_all add: prob_chk_def prob_dec_def e cw)
  then have "prob_hard_decisions Nm_small Mn_small 1 ll = [cw]"
    by (simp add: prob_hard_decisions_def c(1))
  with prob_hard_small [OF cw c(2-4)] show ?thesis by blast
qed

lemma prob_run_zero:
  "\<exists>cw. prob_hard_decisions Nm_small Mn_small 1 (llcodeword mem_zero) = [cw] \<and>
        ldpc_check Nm_small cw = 82"
  using prob_run_small [OF prob_codeword_eq, of "llcodeword mem_zero"]
  by (simp add: mem_zero_def)

lemma prob_run_good:
  "\<exists>cw. prob_hard_decisions Nm_small Mn_small 1 (llcodeword mem_good) = [cw] \<and>
        ldpc_check Nm_small cw = 83"
proof -
  have "(1::real) < exp 20" by simp
  then have "\<not> exp 20 / (1 + exp 20) \<le> (1 / 2 :: real)" "exp 20 / (1 + exp 20) < (1::real)"
    by (simp_all add: field_simps add_pos_pos)
  then show ?thesis
    using prob_run_small [OF prob_codeword_eq, of "llcodeword mem_good"]
    by (simp add: mem_good_def add_pos_pos)
qed

lemma decode_result_fields:
  "plain (mem\<lparr>plain := p, ok := k\<rparr>) = p" "ok (mem\<lparr>plain := p, ok := k\<rparr>) = k"
  "llcodeword (mem\<lparr>plain := p, ok := k\<rparr>) = llcodeword mem"
  by simp_all

lemma loop_early_facts:
  assumes run: "decode_loop Nm chk hard upd n s (junk, - 1) = Inr b"
  shows "(\<forall>cw \<in> set (hard_decisions Nm chk hard upd n s).
            ldpc_check Nm cw = 83 \<longrightarrow> fst b = cw \<and> snd b = 83) \<and>
         (snd b = 83 \<longrightarrow> ldpc_check Nm (fst b) = 83)"
proof (intro conjI ballI impI)
  fix cw assume "cw \<in> set (hard_decisions Nm chk hard upd n s)" "ldpc_check Nm cw = 83"
  from decode_loop_hit [OF run this] show "fst b = cw" "snd b = 83" by simp_all
next
  assume "snd b = 83"
  with decode_loop_score_83 [OF run] show "ldpc_check Nm (fst b) = 83" by simp
qed

text \<open>
  C1. Whenever the hard decision of an iteration passes all 83 checks, both decoders
  return it at once with \<open>ok = 83\<close>; a word returned with \<open>ok = 83\<close> passes all 83 checks.
\<close>

theorem early_termination:
  assumes "Nm_ok Nm" "Mn_ok Mn"
  shows "(\<exists>r. ldpc_decode Nm Mn junk iters mem = Inr r \<and>
            (\<forall>cw \<in> set (prob_hard_decisions Nm Mn iters (llcodeword mem)).
               ldpc_check Nm cw = 83 \<longrightarrow> plain r = cw \<and> ok r = 83) \<and>
            (ok r = 83 \<longrightarrow> ldpc_check Nm (plain r) = 83)) \<and>
         (\<exists>r. ldpc_decode_log Nm Mn junk iters mem = Inr r \<and>
            (\<forall>cw \<in> set (log_hard_decisions Nm Mn iters (llcodeword mem)).
               ldpc_check Nm cw = 83 \<longrightarrow> plain r = cw \<and> ok r = 83) \<and>
            (ok r = 83 \<longrightarrow> ldpc_check Nm (plain r) = 83)) \<and>
         (\<forall>chk hard upd (s :: matrix \<times> matrix) s1 cw b.
            chk s = Inr s1 \<longrightarrow> hard s1 = Inr cw \<longrightarrow> ldpc_check Nm cw = 83 \<longrightarrow>
            decode_iteration Nm chk hard upd s b = Inr (Return (cw, 83)))"
proof (intro conjI)
  obtain c b where cb: "decode_loop Nm (prob_chk Nm) (prob_dec Mn c) (prob_upd Mn c) (nat iters)
       (init_m c, init_e) (junk, - 1) = Inr b"
    "ldpc_decode Nm Mn junk iters mem = Inr (mem\<lparr>plain := fst b, ok := snd b\<rparr>)"
    "prob_hard_decisions Nm Mn iters (llcodeword mem) =
       hard_decisions Nm (prob_chk Nm) (prob_dec Mn c) (prob_upd Mn c) (nat iters)
         (init_m c, init_e)"
    using ldpc_decode_run [OF assms, of mem iters junk] by metis
  from loop_early_facts [OF cb(1)] cb(2,3)
  show "\<exists>r. ldpc_decode Nm Mn junk iters mem = Inr r \<and>
            (\<forall>cw \<in> set (prob_hard_decisions Nm Mn iters (llcodeword mem)).
               ldpc_check Nm cw = 83 \<longrightarrow> plain r = cw \<and> ok r = 83) \<and>
            (ok r = 83 \<longrightarrow> ldpc_check Nm (plain r) = 83)"
    by (simp add: decode_result_fields)
next
  obtain b where b: "decode_loop Nm (log_chk Nm) (log_dec Mn (llcodeword mem))
       (log_upd Mn (llcodeword mem)) (nat iters) (init_m (llcodeword mem), init_e) (junk, - 1) = Inr b"
    "ldpc_decode_log Nm Mn junk iters mem = Inr (mem\<lparr>plain := fst b, ok := snd b\<rparr>)"
    using ldpc_decode_log_run [of Nm Mn mem iters junk] by metis
  from loop_early_facts [OF b(1)] b(2)
  show "\<exists>r. ldpc_decode_log Nm Mn junk iters mem = Inr r \<and>
            (\<forall>cw \<in> set (log_hard_decisions Nm Mn iters (llcodeword mem)).
               ldpc_check Nm cw = 83 \<longrightarrow> plain r = cw \<and> ok r = 83) \<and>
            (ok r = 83 \<longrightarrow> ldpc_check Nm (plain r) = 83)"
    by (simp add: decode_result_fields log_hard_decisions_def)
next
  show "\<forall>chk hard upd (s :: matrix \<times> matrix) s1 cw b.
            chk s = Inr s1 \<longrightarrow> hard s1 = Inr cw \<longrightarrow> ldpc_check Nm cw = 83 \<longrightarrow>
            decode_iteration Nm chk hard upd s b = Inr (Return (cw, 83))"
    by (simp add: decode_iteration_def)
qed

theorem early_termination_witness:
  "Nm_ok Nm_small \<and> Mn_ok Mn_small \<and>
   (\<exists>cw r. prob_hard_decisions Nm_small Mn_small 1 (llcodeword mem_good) = [cw] \<and>
      ldpc_check Nm_small cw = 83 \<and>
      ldpc_decode Nm_small Mn_small junk_small 1 mem_good = Inr r \<and>
      plain r = cw \<and> ok r = 83 \<and> ldpc_check Nm_small (plain r) = 83) \<and>
   (\<exists>cw r. log_hard_decisions Nm_small Mn_small 1 (llcodeword mem_good) = [cw] \<and>
      ldpc_check Nm_small cw = 83 \<and>
      ldpc_decode_log Nm_small Mn_small junk_small 1 mem_good = Inr r \<and>
      plain r = cw \<and> ok r = 83 \<and> ldpc_check Nm_small (plain r) = 83)"
proof -
  note t = early_termination [OF Nm_small_ok Mn_small_ok, of junk_small 1 mem_good]
  obtain cw where cw: "prob_hard_decisions Nm_small Mn_small 1 (llcodeword mem_good) = [cw]"
    "ldpc_check Nm_small cw = 83" using prob_run_good by blast
  obtain cw' where cw': "log_hard_decisions Nm_small Mn_small 1 (llcodeword mem_good) = [cw']"
    "ldpc_check Nm_small cw' = 83" using log_run_good by blast
  from t obtain r where r: "ldpc_decode Nm_small Mn_small junk_small 1 mem_good = Inr r"
    "\<forall>cw \<in> set (prob_hard_decisions Nm_small Mn_small 1 (llcodeword mem_good)).
        ldpc_check Nm_small cw = 83 \<longrightarrow> plain r = cw \<and> ok r = 83"
    "ok r = 83 \<longrightarrow> ldpc_check Nm_small (plain r) = 83" by blast
  from t obtain r' where r': "ldpc_decode_log Nm_small Mn_small junk_small 1 mem_good = Inr r'"
    "\<forall>cw \<in> set (log_hard_decisions Nm_small Mn_small 1 (llcodeword mem_good)).
        ldpc_check Nm_small cw = 83 \<longrightarrow> plain r' = cw \<and> ok r' = 83"
    "ok r' = 83 \<longrightarrow> ldpc_check Nm_small (plain r') = 83" by blast
  from r cw have a: "plain r = cw \<and> ok r = 83 \<and> ldpc_check Nm_small (plain r) = 83" by simp
  from r' cw' have b: "plain r' = cw' \<and> ok r' = 83 \<and> ldpc_check Nm_small (plain r') = 83" by simp
  from a b cw cw' r(1) r'(1) Nm_small_ok Mn_small_ok show ?thesis by blast
qed

lemma loop_best_facts:
  assumes run: "decode_loop Nm chk hard upd (nat iters) s (junk, - 1) = Inr b"
    and r: "r = mem\<lparr>plain := fst b, ok := snd b\<rparr>"
    and H: "H = hard_decisions Nm chk hard upd (nat iters) s"
  shows "(\<forall>cw \<in> set H. ldpc_check Nm cw \<noteq> 83) \<longrightarrow>
         length H = nat iters \<and>
         ok r = Max (insert (- 1) (ldpc_check Nm ` set H)) \<and>
         (1 \<le> iters \<longrightarrow> plain r \<in> set H \<and> ldpc_check Nm (plain r) = ok r \<and>
            ok r = Max (ldpc_check Nm ` set H))"
proof (intro impI conjI)
  assume "\<forall>cw \<in> set H. ldpc_check Nm cw \<noteq> 83"
  then have ex: "\<forall>cw \<in> set (hard_decisions Nm chk hard upd (nat iters) s). ldpc_check Nm cw \<noteq> 83"
    by (simp only: H)
  show "length H = nat iters" unfolding H using run ex by (rule decode_loop_length)
  show "ok r = Max (insert (- 1) (ldpc_check Nm ` set H))"
    unfolding H r using decode_loop_exhausted [OF run ex] by simp
  assume "1 \<le> iters"
  then have "0 < nat iters" by simp
  from decode_loop_best [OF run ex this]
  have b: "fst b \<in> set H" "snd b = ldpc_check Nm (fst b)" "snd b = Max (ldpc_check Nm ` set H)"
    unfolding H by simp_all
  show "plain r \<in> set H" using b(1) by (simp add: r)
  show "ldpc_check Nm (plain r) = ok r" using b(2) by (simp add: r)
  show "ok r = Max (ldpc_check Nm ` set H)" using b(3) by (simp add: r)
qed

lemma decode_iteration_mono:
  "decode_iteration Nm chk hard upd s b = Inr (Continue s' b') \<Longrightarrow> snd b \<le> snd b'"
  by (erule decode_iteration_cases) (simp_all add: record_best_mono)

text \<open>
  C2. The recorded best score never decreases from one iteration to the next; when the
  budget is exhausted (no hard decision passed all 83 checks) the decoder has run
  \<open>iters\<close> iterations and returns one of their hard decisions together with its score,
  the maximum of the scores of all iterations.
\<close>

theorem best_so_far:
  assumes "Nm_ok Nm" "Mn_ok Mn"
  shows "(\<exists>r. ldpc_decode Nm Mn junk iters mem = Inr r \<and>
            ((\<forall>cw \<in> set (prob_hard_decisions Nm Mn iters (llcodeword mem)).
                ldpc_check Nm cw \<noteq> 83) \<longrightarrow>
             length (prob_hard_decisions Nm Mn iters (llcodeword mem)) = nat iters \<and>
             ok r = Max (insert (- 1)
                      (ldpc_check Nm ` set (prob_hard_decisions Nm Mn iters (llcodeword mem)))) \<and>
             (1 \<le> iters \<longrightarrow>
                plain r \<in> set (prob_hard_decisions Nm Mn iters (llcodeword mem)) \<and>
                ldpc_check Nm (plain r) = ok r \<and>
                ok r = Max (ldpc_check Nm ` set (prob_hard_decisions Nm Mn iters (llcodeword mem)))))) \<and>
         (\<exists>r. ldpc_decode_log Nm Mn junk iters mem = Inr r \<and>
            ((\<forall>cw \<in> set (log_hard_decisions Nm Mn iters (llcodeword mem)).
                ldpc_check Nm cw \<noteq> 83) \<longrightarrow>
             length (log_hard_decisions Nm Mn iters (llcodeword mem)) = nat iters \<and>
             ok r = Max (insert (- 1)
                      (ldpc_check Nm ` set (log_hard_decisions Nm Mn iters (llcodeword mem)))) \<and>
             (1 \<le> iters \<longrightarrow>
                plain r \<in> set (log_hard_decisions Nm Mn iters (llcodeword mem)) \<and>
                ldpc_check Nm (plain r) = ok r \<and>
                ok r = Max (ldpc_check Nm ` set (log_hard_decisions Nm Mn iters (llcodeword mem)))))) \<and>
         (\<forall>chk hard upd (s :: matrix \<times> matrix) b s' b'.
            decode_iteration Nm chk hard upd s b = Inr (Continue s' b') \<longrightarrow> snd b \<le> snd b')"
proof (intro conjI)
  obtain c b where cb: "decode_loop Nm (prob_chk Nm) (prob_dec Mn c) (prob_upd Mn c) (nat iters)
       (init_m c, init_e) (junk, - 1) = Inr b"
    "ldpc_decode Nm Mn junk iters mem = Inr (mem\<lparr>plain := fst b, ok := snd b\<rparr>)"
    "prob_hard_decisions Nm Mn iters (llcodeword mem) =
       hard_decisions Nm (prob_chk Nm) (prob_dec Mn c) (prob_upd Mn c) (nat iters)
         (init_m c, init_e)"
    using ldpc_decode_run [OF assms, of mem iters junk] by metis
  show "\<exists>r. ldpc_decode Nm Mn junk iters mem = Inr r \<and>
            ((\<forall>cw \<in> set (prob_hard_decisions Nm Mn iters (llcodeword mem)).
                ldpc_check Nm cw \<noteq> 83) \<longrightarrow>
             length (prob_hard_decisions Nm Mn iters (llcodeword mem)) = nat iters \<and>
             ok r = Max (insert (- 1)
                      (ldpc_check Nm ` set (prob_hard_decisions Nm Mn iters (llcodeword mem)))) \<and>
             (1 \<le> iters \<longrightarrow>
                plain r \<in> set (prob_hard_decisions Nm Mn iters (llcodeword mem)) \<and>
                ldpc_check Nm (plain r) = ok r \<and>
                ok r = Max (ldpc_check Nm ` set (prob_hard_decisions Nm Mn iters (llcodeword mem)))))"
    using cb(2) loop_best_facts [OF cb(1) refl cb(3)] by blast
next
  obtain b where b: "decode_loop Nm (log_chk Nm) (log_dec Mn (llcodeword mem))
       (log_upd Mn (llcodeword mem)) (nat iters) (init_m (llcodeword mem), init_e) (junk, - 1) = Inr b"
    "ldpc_decode_log Nm Mn junk iters mem = Inr (mem\<lparr>plain := fst b, ok := snd b\<rparr>)"
    using ldpc_decode_log_run [of Nm Mn mem iters junk] by metis
  show "\<exists>r. ldpc_decode_log Nm Mn junk iters mem = Inr r \<and>
            ((\<forall>cw \<in> set (log_hard_decisions Nm Mn iters (llcodeword mem)).
                ldpc_check Nm cw \<noteq> 83) \<longrightarrow>
             length (log_hard_decisions Nm Mn iters (llcodeword mem)) = nat iters \<and>
             ok r = Max (insert (- 1)
                      (ldpc_check Nm ` set (log_hard_decisions Nm Mn iters (llcodeword mem)))) \<and>
             (1 \<le> iters \<longrightarrow>
                plain r \<in> set (log_hard_decisions Nm Mn iters (llcodeword mem)) \<and>
                ldpc_check Nm (plain r) = ok r \<and>
                ok r = Max (ldpc_check Nm ` set (log_hard_decisions Nm Mn iters (llcodeword mem)))))"
    using b(2) loop_best_facts [OF b(1) refl log_hard_decisions_def] by blast
next
  show "\<forall>chk hard upd (s :: matrix \<times> matrix) b s' b'.
            decode_iteration Nm chk hard upd s b = Inr (Continue s' b') \<longrightarrow> snd b \<le> snd b'"
    by (intro allI impI) (rule decode_iteration_mono)
qed

lemma log_iteration_zero:
  "\<exists>s' b'. decode_iteration Nm_small (log_chk Nm_small) (log_dec Mn_small (llcodeword mem_zero))
      (log_upd Mn_small (llcodeword mem_zero)) (init_m (llcodeword mem_zero), init_e)
      (junk_small, - 1) = Inr (Continue s' b') \<and> snd b' = 82"
proof -
  let ?c = "llcodeword mem_zero"
  have ft: "fast_tanh (?c ! Suc 0 / 2) = Inr 0" by (simp add: llcodeword_zero fast_tanh_0)
  have chk: "log_chk Nm_small (init_m ?c, init_e) = Inr (init_m ?c, e_log_small 0)"
    by (simp add: log_chk_def e_log_small_def
        log_check_update_small [OF llcodeword_zero(1) ft log_check_msg_0])
  have sc: "ldpc_check Nm_small (log_hard Mn_small ?c (e_log_small 0)) = 82"
    by (simp add: ldpc_check_log_small llcodeword_zero)
  show ?thesis
    by (simp add: decode_iteration_def chk log_dec_def log_upd_def sc record_best_def)
qed

theorem best_so_far_witness:
  "Nm_ok Nm_small \<and> Mn_ok Mn_small \<and>
   (\<exists>cw r. prob_hard_decisions Nm_small Mn_small 1 (llcodeword mem_zero) = [cw] \<and>
      ldpc_check Nm_small cw = 82 \<and>
      ldpc_decode Nm_small Mn_small junk_small 1 mem_zero = Inr r \<and>
      plain r = cw \<and> ok r = 82) \<and>
   (\<exists>cw r. log_hard_decisions Nm_small Mn_small 1 (llcodeword mem_zero) = [cw] \<and>
      ldpc_check Nm_small cw = 82 \<and>
      ldpc_decode_log Nm_small Mn_small junk_small 1 mem_zero = Inr r \<and>
      plain r = cw \<and> ok r = 82) \<and>
   (\<exists>s' b'. decode_iteration Nm_small (log_chk Nm_small) (log_dec Mn_small (llcodeword mem_zero))
      (log_upd Mn_small (llcodeword mem_zero)) (init_m (llcodeword mem_zero), init_e)
      (junk_small, - 1) = Inr (Continue s' b') \<and> snd (junk_small, - 1 :: int) \<le> snd b')"
proof -
  note t = best_so_far [OF Nm_small_ok Mn_small_ok, of junk_small 1 mem_zero]
  obtain cw where cw: "prob_hard_decisions Nm_small Mn_small 1 (llcodeword mem_zero) = [cw]"
    "ldpc_check Nm_small cw = 82" using prob_run_zero by blast
  obtain cw' where cw': "log_hard_decisions Nm_small Mn_small 1 (llcodeword mem_zero) = [cw']"
    "ldpc_check Nm_small cw' = 82" using log_run_zero by blast
  from t obtain r where r: "ldpc_decode Nm_small Mn_small junk_small 1 mem_zero = Inr r"
    "(\<forall>cw \<in> set (prob_hard_decisions Nm_small Mn_small 1 (llcodeword mem_zero)).
        ldpc_check Nm_small cw \<noteq> 83) \<longrightarrow>
      plain r \<in> set (prob_hard_decisions Nm_small Mn_small 1 (llcodeword mem_zero)) \<and>
      ldpc_check Nm_small (plain r) = ok r" by auto
  from t obtain r' where r': "ldpc_decode_log Nm_small Mn_small junk_small 1 mem_zero = Inr r'"
    "(\<forall>cw \<in> set (log_hard_decisions Nm_small Mn_small 1 (llcodeword mem_zero)).
        ldpc_check Nm_small cw \<noteq> 83) \<longrightarrow>
      plain r' \<in> set (log_hard_decisions Nm_small Mn_small 1 (llcodeword mem_zero)) \<and>
      ldpc_check Nm_small (plain r') = ok r'" by auto
  from r(2) cw have a: "plain r = cw \<and> ok r = 82" by auto
  from r'(2) cw' have b: "plain r' = cw' \<and> ok r' = 82" by auto
  obtain s' b' where it: "decode_iteration Nm_small (log_chk Nm_small)
      (log_dec Mn_small (llcodeword mem_zero)) (log_upd Mn_small (llcodeword mem_zero))
      (init_m (llcodeword mem_zero), init_e) (junk_small, - 1) = Inr (Continue s' b')"
    using log_iteration_zero by blast
  from t it have "snd (junk_small, - 1 :: int) \<le> snd b'" by blast
  with it a b cw cw' r(1) r'(1) Nm_small_ok Mn_small_ok show ?thesis by blast
qed

lemma ldpc_decode_zero:
  "iters \<le> 0 \<Longrightarrow> ldpc_decode Nm Mn junk iters mem = Inr (mem\<lparr>plain := junk, ok := - 1\<rparr>)"
  by (simp add: ldpc_decode_def prob_codeword_eq)

lemma ldpc_decode_log_zero:
  "iters \<le> 0 \<Longrightarrow> ldpc_decode_log Nm Mn junk iters mem = Inr (mem\<lparr>plain := junk, ok := - 1\<rparr>)"
  by (simp add: ldpc_decode_log_def Let_def)

lemma sign_decode_zero:
  "sign_decode (llcodeword mem_zero) ! 0 = 1" "sign_decode (llcodeword mem_zero) ! Suc 0 = 1"
  by (simp_all add: sign_decode_def mem_zero_def)

text \<open>
  C3, as the specification states it: with an iteration budget of 0, \<open>ok\<close> would be the
  parity score of the sign decode of the input and \<open>plain\<close> that sign decode. On the
  all-zero input the sign decode scores 82 on the small tables; the call returns
  \<open>ok = -1\<close> and, in \<open>plain\<close>, what \<open>best_cw\<close> happened to hold.
\<close>

theorem zero_budget_counterexample:
  "ldpc_decode_log Nm_small Mn_small junk_small 0 mem_zero
     = Inr (mem_zero\<lparr>plain := junk_small, ok := - 1\<rparr>) \<and>
   ldpc_decode Nm_small Mn_small junk_small 0 mem_zero
     = Inr (mem_zero\<lparr>plain := junk_small, ok := - 1\<rparr>) \<and>
   ldpc_check Nm_small (sign_decode (llcodeword mem_zero)) = 82 \<and>
   junk_small \<noteq> sign_decode (llcodeword mem_zero) \<and>
   (\<forall>cw. ldpc_check Nm_small cw \<noteq> - 1)"
proof -
  have "ldpc_check Nm_small cw \<noteq> - 1" for cw
    using ldpc_check_bounds [of Nm_small cw] by simp
  moreover
  have "junk_small ! 0 \<noteq> sign_decode (llcodeword mem_zero) ! 0"
    by (simp add: junk_small_def sign_decode_zero)
  then have "junk_small \<noteq> sign_decode (llcodeword mem_zero)" by metis
  moreover have "ldpc_check Nm_small (sign_decode (llcodeword mem_zero)) = 82"
    by (simp add: ldpc_check_small sign_decode_zero)
  ultimately show ?thesis by (simp add: ldpc_decode_zero ldpc_decode_log_zero)
qed

text \<open>
  C3, amended: with an iteration budget of 0 (or less) neither decoder runs an
  iteration, and both return with \<open>ok = -1\<close>, the value \<open>best_score\<close> starts with.
\<close>

theorem zero_budget:
  assumes "iters \<le> 0"
  shows "(\<exists>r. ldpc_decode Nm Mn junk iters mem = Inr r \<and> ok r = - 1 \<and>
              prob_hard_decisions Nm Mn iters (llcodeword mem) = []) \<and>
         (\<exists>r. ldpc_decode_log Nm Mn junk iters mem = Inr r \<and> ok r = - 1 \<and>
              log_hard_decisions Nm Mn iters (llcodeword mem) = [])"
  using assms
  by (simp add: ldpc_decode_zero ldpc_decode_log_zero prob_hard_decisions_def
      log_hard_decisions_def prob_codeword_eq)

theorem zero_budget_witness:
  "(0 :: int) \<le> 0 \<and>
   (\<exists>r. ldpc_decode Nm_small Mn_small junk_small 0 mem_zero = Inr r \<and> ok r = - 1) \<and>
   (\<exists>r. ldpc_decode_log Nm_small Mn_small junk_small 0 mem_zero = Inr r \<and> ok r = - 1)"
  using zero_budget [of 0 Nm_small Mn_small junk_small mem_zero] by blast

text \<open>
  C8. Neither decoder changes its input array: after the call the caller's
  \<open>llcodeword\<close> is what it was.
\<close>

theorem input_unchanged:
  assumes "Nm_ok Nm" "Mn_ok Mn" "length (llcodeword mem) = 174"
  shows "(\<exists>r. ldpc_decode Nm Mn junk iters mem = Inr r \<and> llcodeword r = llcodeword mem) \<and>
         (\<exists>r. ldpc_decode_log Nm Mn junk iters mem = Inr r \<and> llcodeword r = llcodeword mem)"
proof
  obtain c b where "ldpc_decode Nm Mn junk iters mem = Inr (mem\<lparr>plain := fst b, ok := snd b\<rparr>)"
    using ldpc_decode_run [OF assms(1,2), of mem iters junk] by metis
  then show "\<exists>r. ldpc_decode Nm Mn junk iters mem = Inr r \<and> llcodeword r = llcodeword mem"
    by simp
next
  obtain b where "ldpc_decode_log Nm Mn junk iters mem = Inr (mem\<lparr>plain := fst b, ok := snd b\<rparr>)"
    using ldpc_decode_log_run [of Nm Mn mem iters junk] by metis
  then show "\<exists>r. ldpc_decode_log Nm Mn junk iters mem = Inr r \<and> llcodeword r = llcodeword mem"
    by simp
qed

theorem input_unchanged_witness:
  "Nm_ok Nm_small \<and> Mn_ok Mn_small \<and> length (llcodeword mem_good) = 174 \<and>
   (\<exists>r. ldpc_decode Nm_small Mn_small junk_small 3 mem_good = Inr r \<and>
        llcodeword r = 0 # 20 # replicate 172 0) \<and>
   (\<exists>r. ldpc_decode_log Nm_small Mn_small junk_small 3 mem_good = Inr r \<and>
        llcodeword r = 0 # 20 # replicate 172 0)"
proof -
  have l: "length (llcodeword mem_good) = 174" by (simp add: mem_good_def)
  have e: "llcodeword mem_good = 0 # 20 # replicate 172 0" by (simp add: mem_good_def)
  from input_unchanged [OF Nm_small_ok Mn_small_ok l, of junk_small 3]
  show ?thesis unfolding e [symmetric] using Nm_small_ok Mn_small_ok l by blast
qed

text \<open>
  C10. With at least one iteration, both decoders return with \<open>ok\<close> equal to the parity
  score of the word they return, so \<open>ok\<close> lies between 0 and 83.
\<close>

theorem ok_is_score_of_plain:
  assumes "Nm_ok Nm" "Mn_ok Mn" "1 \<le> iters"
  shows "(\<exists>r. ldpc_decode Nm Mn junk iters mem = Inr r \<and>
            ok r = ldpc_check Nm (plain r) \<and> 0 \<le> ok r \<and> ok r \<le> 83) \<and>
         (\<exists>r. ldpc_decode_log Nm Mn junk iters mem = Inr r \<and>
            ok r = ldpc_check Nm (plain r) \<and> 0 \<le> ok r \<and> ok r \<le> 83)"
proof
  have n: "0 < nat iters" using assms(3) by simp
  obtain c b where cb: "decode_loop Nm (prob_chk Nm) (prob_dec Mn c) (prob_upd Mn c) (nat iters)
       (init_m c, init_e) (junk, - 1) = Inr b"
    "ldpc_decode Nm Mn junk iters mem = Inr (mem\<lparr>plain := fst b, ok := snd b\<rparr>)"
    using ldpc_decode_run [OF assms(1,2), of mem iters junk] by metis
  have "snd b = ldpc_check Nm (fst b)"
    using decode_loop_score_is_check [OF cb(1)] n by simp
  with cb(2) ldpc_check_bounds [of Nm "fst b"]
  show "\<exists>r. ldpc_decode Nm Mn junk iters mem = Inr r \<and>
            ok r = ldpc_check Nm (plain r) \<and> 0 \<le> ok r \<and> ok r \<le> 83"
    by simp
next
  have n: "0 < nat iters" using assms(3) by simp
  obtain b where b: "decode_loop Nm (log_chk Nm) (log_dec Mn (llcodeword mem))
       (log_upd Mn (llcodeword mem)) (nat iters) (init_m (llcodeword mem), init_e) (junk, - 1) = Inr b"
    "ldpc_decode_log Nm Mn junk iters mem = Inr (mem\<lparr>plain := fst b, ok := snd b\<rparr>)"
    using ldpc_decode_log_run [of Nm Mn mem iters junk] by metis
  have "snd b = ldpc_check Nm (fst b)"
    using decode_loop_score_is_check [OF b(1)] n by simp
  with b(2) ldpc_check_bounds [of Nm "fst b"]
  show "\<exists>r. ldpc_decode_log Nm Mn junk iters mem = Inr r \<and>
            ok r = ldpc_check Nm (plain r) \<and> 0 \<le> ok r \<and> ok r \<le> 83"
    by simp
qed

theorem ok_is_score_of_plain_witness:
  "Nm_ok Nm_small \<and> Mn_ok Mn_small \<and> (1 :: int) \<le> 2 \<and>
   (\<exists>r. ldpc_decode Nm_small Mn_small junk_small 2 mem_zero = Inr r \<and>
        ok r = ldpc_check Nm_small (plain r) \<and> 0 \<le> ok r \<and> ok r \<le> 83) \<and>
   (\<exists>r. ldpc_decode_log Nm_small Mn_small junk_small 2 mem_zero = Inr r \<and>
        ok r = ldpc_check Nm_small (plain r) \<and> 0 \<le> ok r \<and> ok r \<le> 83)"
  using ok_is_score_of_plain [OF Nm_small_ok Mn_small_ok, of 2 junk_small mem_zero]
    Nm_small_ok Mn_small_ok
  by simp

text \<open>
  C6. The division \<open>q1 / q0\<close> is made only when \<open>q0\<close> is not zero, the logarithm is
  taken only of \<open>(1 + a) / (1 - a)\<close> with \<open>-0.999 < a < 0.999\<close>, where \<open>1 + a\<close> and
  \<open>1 - a\<close> are positive; and for every input no division of either decoder has a zero
  divisor and no logarithm an argument that is not positive: both decoders return a
  result, never a fault.
\<close>

theorem no_arithmetic_fault:
  assumes "Nm_ok Nm" "Mn_ok Mn"
  shows "(\<exists>r. ldpc_decode Nm Mn junk iters mem = Inr r) \<and>
         (\<exists>r. ldpc_decode_log Nm Mn junk iters mem = Inr r) \<and>
         prob_of_q q0 q1 = (if q0 = 0 then Inr 1 else fdiv 1 (1 + q1 / q0)) \<and>
         log_check_msg a = Inr (if a \<ge> 0.999 then 7.6 else if a \<le> - 0.999 then - 7.6
                                else ln ((1 + a) / (1 - a))) \<and>
         (- 0.999 < a \<and> a < 0.999 \<longrightarrow>
            0 < 1 + a \<and> 0 < 1 - a \<and>
            log_check_msg a = and_then (fdiv (1 + a) (1 - a)) flog)"
proof (intro conjI impI)
  show "\<exists>r. ldpc_decode Nm Mn junk iters mem = Inr r" using assms by (rule ldpc_decode_total)
  show "\<exists>r. ldpc_decode_log Nm Mn junk iters mem = Inr r" by (rule ldpc_decode_log_total)
  show "prob_of_q q0 q1 = (if q0 = 0 then Inr 1 else fdiv 1 (1 + q1 / q0))"
    by (simp add: prob_of_q_def fdiv_def)
  show "log_check_msg a = Inr (if a \<ge> 0.999 then 7.6 else if a \<le> - 0.999 then - 7.6
                                else ln ((1 + a) / (1 - a)))"
    by (rule log_check_msg_eq)
next
  assume a: "- 0.999 < a \<and> a < 0.999"
  then show "0 < 1 + a" "0 < 1 - a" by simp_all
  from a show "log_check_msg a = and_then (fdiv (1 + a) (1 - a)) flog"
    by (simp add: log_check_msg_def)
qed

theorem no_arithmetic_fault_witness:
  "Nm_ok Nm_small \<and> Mn_ok Mn_small \<and>
   (\<exists>r. ldpc_decode Nm_small Mn_small junk_small 5 mem_good = Inr r) \<and>
   (\<exists>r. ldpc_decode_log Nm_small Mn_small junk_small 5 mem_good = Inr r) \<and>
   prob_of_q 0 1 = Inr 1 \<and> prob_of_q 1 1 = Inr (1 / 2) \<and>
   log_check_msg (1 / 2) = Inr (ln 3)"
  using no_arithmetic_fault [OF Nm_small_ok Mn_small_ok, of junk_small 5 mem_good 0 1 "1 / 2"]
    no_arithmetic_fault [OF Nm_small_ok Mn_small_ok, of junk_small 5 mem_good 1 1 "1 / 2"]
    Nm_small_ok Mn_small_ok
  by (simp add: fdiv_def)

section \<open>Gauss-Jordan elimination\<close>

lemma fold_upt_induct:
  assumes "P 0 s" and "\<And>k s. k < n \<Longrightarrow> P k s \<Longrightarrow> P (Suc k) (f k s)"
  shows "P n (fold f [0..<n] s)"
  using assms(2)
proof (induction n)
  case 0
  then show ?case using assms(1) by simp
next
  case (Suc n)
  have "P n (fold f [0..<n] s)" using Suc.prems by (intro Suc.IH) simp
  then show ?case using Suc.prems [of n "fold f [0..<n] s"] by simp
qed

lemma gj_wf_mat_set: "gj_wf m \<Longrightarrow> gj_wf (mat_set m r c v)"
  by (simp add: gj_wf_def length_mat_set_row)

lemma gj_nth_mat_set:
  "gj_wf m \<Longrightarrow> r < 174 \<Longrightarrow> c < 182 \<Longrightarrow> r' < 174 \<Longrightarrow>
   mat_set m r c v ! r' ! c' = (if r' = r \<and> c' = c then v else m ! r' ! c')"
  by (simp add: gj_wf_def nth_mat_set)

lemma swap_rows_nth:
  assumes wf: "gj_wf m" and r: "row < 174" "row1 < 174" "row \<noteq> row1"
  shows "gj_wf (swap_rows 91 row row1 m) \<and>
         (\<forall>r<174. \<forall>c<182. swap_rows 91 row row1 m ! r ! c =
            (if r = row then m ! row1 ! c else if r = row1 then m ! row ! c else m ! r ! c))"
proof -
  let ?f = "\<lambda>col m. let tmp = m ! row ! col
                    in mat_set (mat_set m row col (m ! row1 ! col)) row1 col tmp"
  let ?P = "\<lambda>k s. gj_wf s \<and> (\<forall>r<174. \<forall>c<182. s ! r ! c =
            (if c < k then (if r = row then m ! row1 ! c else if r = row1 then m ! row ! c
                            else m ! r ! c) else m ! r ! c))"
  have "?P 182 (fold ?f [0..<182] m)"
  proof (rule fold_upt_induct [where P = "?P" and f = "?f"])
    show "?P 0 m" using wf by simp
  next
    fix k :: nat and s :: "int list list" assume k: "k < 182" and P: "?P k s"
    then have wfs: "gj_wf s" by simp
    have wf1: "gj_wf (mat_set s row k (s ! row1 ! k))" using wfs by (rule gj_wf_mat_set)
    have sk: "s ! row ! k = m ! row ! k" "s ! row1 ! k = m ! row1 ! k"
      using P r k by simp_all
    show "?P (Suc k) (?f k s)"
    proof (intro conjI allI impI)
      show "gj_wf (?f k s)" using wfs by (simp add: Let_def gj_wf_mat_set)
    next
      fix r' c :: nat assume rc: "r' < 174" "c < 182"
      have "?f k s ! r' ! c =
          (if r' = row1 \<and> c = k then s ! row ! k
           else if r' = row \<and> c = k then s ! row1 ! k else s ! r' ! c)"
        using wfs wf1 r k rc by (simp add: Let_def gj_nth_mat_set)
      also have "\<dots> = (if c < Suc k then (if r' = row then m ! row1 ! c
                            else if r' = row1 then m ! row ! c else m ! r' ! c) else m ! r' ! c)"
        using P rc r sk by (auto simp: less_Suc_eq)
      finally show "?f k s ! r' ! c = (if c < Suc k then (if r' = row then m ! row1 ! c
                            else if r' = row1 then m ! row ! c else m ! r' ! c) else m ! r' ! c)" .
    qed
  qed
  then show ?thesis by (simp add: swap_rows_def)
qed

lemma bit_smod2: "(x = 0 \<or> x = 1) \<Longrightarrow> (y = 0 \<or> y = 1) \<Longrightarrow> (x + y :: int) smod 2 = (x + y) mod 2"
  by (rule bit_add_smod)

lemma add_row_nth:
  assumes wf: "gj_wf m" and bits: "gj_bits m" and r: "row < 174" "row1 < 174" "row \<noteq> row1"
  shows "gj_wf (add_row 91 row row1 m) \<and>
         (\<forall>r<174. \<forall>c<182. add_row 91 row row1 m ! r ! c =
            (if r = row1 then (m ! row1 ! c + m ! row ! c) mod 2 else m ! r ! c))"
proof -
  let ?f = "\<lambda>col m. mat_set m row1 col ((m ! row1 ! col + m ! row ! col) smod 2)"
  let ?P = "\<lambda>k s. gj_wf s \<and> (\<forall>r<174. \<forall>c<182. s ! r ! c =
            (if c < k \<and> r = row1 then (m ! row1 ! c + m ! row ! c) mod 2 else m ! r ! c))"
  have "?P 182 (fold ?f [0..<182] m)"
  proof (rule fold_upt_induct [where P = "?P" and f = "?f"])
    show "?P 0 m" using wf by simp
  next
    fix k :: nat and s :: "int list list" assume k: "k < 182" and P: "?P k s"
    then have wfs: "gj_wf s" by simp
    have sk: "s ! row ! k = m ! row ! k" "s ! row1 ! k = m ! row1 ! k"
      using P r k by simp_all
    have b: "m ! row1 ! k = 0 \<or> m ! row1 ! k = 1" "m ! row ! k = 0 \<or> m ! row ! k = 1"
      using bits r k by (simp_all add: gj_bits_def)
    have v: "(s ! row1 ! k + s ! row ! k) smod 2 = (m ! row1 ! k + m ! row ! k) mod 2"
      unfolding sk by (rule bit_smod2 [OF b])
    show "?P (Suc k) (?f k s)"
    proof (intro conjI allI impI)
      show "gj_wf (?f k s)" using wfs by (simp add: gj_wf_mat_set)
    next
      fix r' c :: nat assume rc: "r' < 174" "c < 182"
      have "?f k s ! r' ! c =
          (if r' = row1 \<and> c = k then (m ! row1 ! k + m ! row ! k) mod 2 else s ! r' ! c)"
        using wfs r k rc by (simp add: gj_nth_mat_set v)
      also have "\<dots> = (if c < Suc k \<and> r' = row1 then (m ! row1 ! c + m ! row ! c) mod 2
                         else m ! r' ! c)"
        using P rc by (auto simp: less_Suc_eq)
      finally show "?f k s ! r' ! c = (if c < Suc k \<and> r' = row1
          then (m ! row1 ! c + m ! row ! c) mod 2 else m ! r' ! c)" .
    qed
  qed
  then show ?thesis by (simp add: add_row_def)
qed

lemma gj_bits_nth: "gj_bits m \<Longrightarrow> r < 174 \<Longrightarrow> c < 182 \<Longrightarrow> m ! r ! c = 0 \<or> m ! r ! c = 1"
  by (simp add: gj_bits_def)

lemma eliminate_nth:
  assumes wf: "gj_wf m" and bits: "gj_bits m" and row: "row < 174"
  shows "gj_wf (eliminate 91 174 row m) \<and>
         (\<forall>r<174. \<forall>c<182. eliminate 91 174 row m ! r ! c =
            (if r \<noteq> row \<and> m ! r ! row \<noteq> 0 then (m ! r ! c + m ! row ! c) mod 2
             else m ! r ! c))"
proof -
  let ?f = "\<lambda>row1 m. if row1 = row then m
                     else if m ! row1 ! row \<noteq> 0 then add_row 91 row row1 m else m"
  let ?P = "\<lambda>k s. gj_wf s \<and> gj_bits s \<and> (\<forall>r<174. \<forall>c<182. s ! r ! c =
            (if r < k \<and> r \<noteq> row \<and> m ! r ! row \<noteq> 0 then (m ! r ! c + m ! row ! c) mod 2
             else m ! r ! c))"
  have "?P 174 (fold ?f [0..<174] m)"
  proof (rule fold_upt_induct [where P = "?P" and f = "?f"])
    show "?P 0 m" using wf bits by simp
  next
    fix k :: nat and s :: "int list list" assume k: "k < 174" and P: "?P k s"
    then have wfs: "gj_wf s" and bs: "gj_bits s" by simp_all
    have ent: "\<And>r c. r < 174 \<Longrightarrow> c < 182 \<Longrightarrow> s ! r ! c =
            (if r < k \<and> r \<noteq> row \<and> m ! r ! row \<noteq> 0 then (m ! r ! c + m ! row ! c) mod 2
             else m ! r ! c)"
      using P by simp
    have srow: "\<And>c. c < 182 \<Longrightarrow> s ! row ! c = m ! row ! c"
      using ent [OF row] by simp
    have sk: "\<And>c. c < 182 \<Longrightarrow> s ! k ! c = m ! k ! c"
      using ent [OF k] by simp
    show "?P (Suc k) (?f k s)"
    proof (cases "k \<noteq> row \<and> m ! k ! row \<noteq> 0")
      case False
      then have f: "?f k s = s" using sk [of row] row by auto
      have "\<forall>r<174. \<forall>c<182. s ! r ! c =
            (if r < Suc k \<and> r \<noteq> row \<and> m ! r ! row \<noteq> 0 then (m ! r ! c + m ! row ! c) mod 2
             else m ! r ! c)"
        using ent False by (auto simp: less_Suc_eq)
      with wfs bs show ?thesis unfolding f by blast
    next
      case True
      then have f: "?f k s = add_row 91 row k s" using sk [of row] row by auto
      have kr: "row \<noteq> k" using True by blast
      note ar = add_row_nth [OF wfs bs row k kr]
      have ent': "\<And>r c. r < 174 \<Longrightarrow> c < 182 \<Longrightarrow> add_row 91 row k s ! r ! c =
            (if r < Suc k \<and> r \<noteq> row \<and> m ! r ! row \<noteq> 0 then (m ! r ! c + m ! row ! c) mod 2
             else m ! r ! c)"
      proof -
        fix r c :: nat assume rc: "r < 174" "c < 182"
        have "add_row 91 row k s ! r ! c =
                (if r = k then (s ! k ! c + s ! row ! c) mod 2 else s ! r ! c)"
          using ar rc by simp
        also have "\<dots> = (if r < Suc k \<and> r \<noteq> row \<and> m ! r ! row \<noteq> 0
                            then (m ! r ! c + m ! row ! c) mod 2 else m ! r ! c)"
          using True ent [OF rc] sk [OF rc(2)] srow [OF rc(2)] by (auto simp: less_Suc_eq)
        finally show "add_row 91 row k s ! r ! c =
            (if r < Suc k \<and> r \<noteq> row \<and> m ! r ! row \<noteq> 0 then (m ! r ! c + m ! row ! c) mod 2
             else m ! r ! c)" .
      qed
      have "gj_bits (add_row 91 row k s)"
        unfolding gj_bits_def
      proof (intro allI impI)
        fix r c :: nat assume rc: "r < 174" "c < 182"
        have "m ! r ! c = 0 \<or> m ! r ! c = 1" "m ! row ! c = 0 \<or> m ! row ! c = 1"
          using bits rc row by (simp_all add: gj_bits_def)
        then show "add_row 91 row k s ! r ! c = 0 \<or> add_row 91 row k s ! r ! c = 1"
          unfolding ent' [OF rc] by auto
      qed
      with ar ent' show ?thesis unfolding f by blast
    qed
  qed
  then show ?thesis by (simp add: eliminate_def)
qed

lemma eliminate_bits:
  assumes wf: "gj_wf m" and bits: "gj_bits m" and row: "row < 174"
  shows "gj_bits (eliminate 91 174 row m)"
  unfolding gj_bits_def
proof (intro allI impI)
  fix r c :: nat assume rc: "r < 174" "c < 182"
  have "m ! r ! c = 0 \<or> m ! r ! c = 1" "m ! row ! c = 0 \<or> m ! row ! c = 1"
    using bits rc row by (simp_all add: gj_bits_def)
  then show "eliminate 91 174 row m ! r ! c = 0 \<or> eliminate 91 174 row m ! r ! c = 1"
    using eliminate_nth [OF assms] rc by auto
qed

lemma sum_mod2_mult:
  "(\<Sum>c\<in>A. (f c mod 2) * g c) mod 2 = (\<Sum>c\<in>A. f c * g c) mod (2::int)"
proof -
  have "(\<Sum>c\<in>A. (f c mod 2) * g c) mod 2 = (\<Sum>c\<in>A. ((f c mod 2) * g c) mod 2) mod 2"
    by (simp add: mod_sum_eq)
  also have "\<dots> = (\<Sum>c\<in>A. (f c * g c) mod 2) mod 2"
    by (simp add: mod_mult_left_eq)
  also have "\<dots> = (\<Sum>c\<in>A. f c * g c) mod 2"
    by (simp add: mod_sum_eq)
  finally show ?thesis .
qed

lemma gj_inv_perm:
  assumes inv: "gj_inv G t m w"
    and wf': "gj_wf m'" and len': "length w' = 174"
    and p: "\<And>k. k < 174 \<Longrightarrow> p k < 174" "\<And>k. k < 174 \<Longrightarrow> (t \<le> p k \<longleftrightarrow> t \<le> k)"
           "\<And>k. k < t \<Longrightarrow> p k = k"
    and m': "\<And>k c. k < 174 \<Longrightarrow> c < 182 \<Longrightarrow> m' ! k ! c = m ! p k ! c"
    and w': "\<And>k. k < 174 \<Longrightarrow> w' ! k = w ! p k"
    and t: "t < 91"
  shows "gj_inv G t m' w'"
  unfolding gj_inv_def
proof (intro conjI allI impI)
  show "gj_wf m'" by (rule wf')
  show "length w' = 174" by (rule len')
  show "gj_bits m'"
    unfolding gj_bits_def using inv m' p(1) by (simp add: gj_inv_def gj_bits_def)
next
  fix k c :: nat assume "k < 174" "c < 91" "t \<le> c"
  then show "m' ! k ! (91 + c) = 0" using inv m' [of k "91 + c"] p(1) [of k]
    by (simp add: gj_inv_def)
next
  fix k c :: nat assume kc: "k < 174" "c < t"
  have "m' ! k ! c = m ! p k ! c" using kc t by (intro m') simp_all
  also have "\<dots> = (if p k = c then 1 else 0)"
    using inv kc p(1) [of k] by (simp add: gj_inv_def)
  also have "\<dots> = (if k = c then 1 else 0)"
  proof (cases "k < t")
    case True
    then show ?thesis using p(3) by simp
  next
    case False
    then have "t \<le> p k" using p(2) kc by simp
    with False kc show ?thesis by auto
  qed
  finally show "m' ! k ! c = (if k = c then 1 else 0)" .
next
  fix k j :: nat assume kj: "k < 174" "j < 91"
  have pk: "p k < 174" using kj p(1) by simp
  have s: "(\<Sum>c<t. m' ! k ! (91 + c) * G (w' ! c) j) = (\<Sum>c<t. m ! p k ! (91 + c) * G (w ! c) j)"
  proof (rule sum.cong [OF refl])
    fix c assume "c \<in> {..<t}"
    then have c: "c < t" by simp
    then have "m' ! k ! (91 + c) = m ! p k ! (91 + c)" using m' [of k "91 + c"] kj t by simp
    moreover have "w' ! c = w ! c" using w' [of c] p(3) [of c] c t by simp
    ultimately show "m' ! k ! (91 + c) * G (w' ! c) j = m ! p k ! (91 + c) * G (w ! c) j" by simp
  qed
  have "m' ! k ! j = m ! p k ! j" using kj by (intro m') simp_all
  also have "\<dots> = ((if t \<le> p k then G (w ! p k) j else 0) +
                    (\<Sum>c<t. m ! p k ! (91 + c) * G (w ! c) j)) mod 2"
    using inv pk kj by (simp add: gj_inv_def)
  also have "\<dots> = ((if t \<le> k then G (w' ! k) j else 0) +
                    (\<Sum>c<t. m' ! k ! (91 + c) * G (w' ! c) j)) mod 2"
    using p(2) [of k] w' [of k] kj s by simp
  finally show "m' ! k ! j = ((if t \<le> k then G (w' ! k) j else 0) +
                    (\<Sum>c<t. m' ! k ! (91 + c) * G (w' ! c) j)) mod 2" .
qed

lemma gj_inv_swap:
  assumes inv: "gj_inv G t m w" and t: "t < 91" and r: "t < row1" "row1 < 174"
  shows "gj_inv G t (swap_rows 91 t row1 m) (swap_which t row1 w)"
proof -
  define p where "p k = (if k = t then row1 else if k = row1 then t else k)" for k
  have wf: "gj_wf m" and len: "length w = 174" using inv by (simp_all add: gj_inv_def)
  have t174: "t < 174" using t by simp
  have ne: "t \<noteq> row1" using r by simp
  note sw = swap_rows_nth [OF wf t174 r(2) ne]
  show ?thesis
  proof (rule gj_inv_perm [OF inv, where p = p])
    show "gj_wf (swap_rows 91 t row1 m)" using sw by simp
    show "length (swap_which t row1 w) = 174" using len by (simp add: swap_which_def Let_def)
    show "p k < 174" if "k < 174" for k using that r t by (simp add: p_def)
    show "t \<le> p k \<longleftrightarrow> t \<le> k" if "k < 174" for k using that r by (auto simp: p_def)
    show "p k = k" if "k < t" for k using that r by (simp add: p_def)
    show "swap_rows 91 t row1 m ! k ! c = m ! p k ! c" if "k < 174" "c < 182" for k c
      using sw that by (simp add: p_def)
    show "swap_which t row1 w ! k = w ! p k" if "k < 174" for k
      using that len r t by (auto simp: swap_which_def Let_def p_def nth_list_update)
    show "t < 91" by (rule t)
  qed
qed

lemma gj_inv_toggle:
  assumes inv: "gj_inv G t m w" and t: "t < 91" and piv: "m ! t ! t = 1"
  shows "gj_mid G t (mat_set m t (91 + t) ((m ! t ! (91 + t) + 1) smod 2)) w"
proof -
  have wf: "gj_wf m" and bits: "gj_bits m" and len: "length w = 174"
    and i1: "\<And>k c. k < 174 \<Longrightarrow> c < 91 \<Longrightarrow> t \<le> c \<Longrightarrow> m ! k ! (91 + c) = 0"
    and i3: "\<And>k c. k < 174 \<Longrightarrow> c < t \<Longrightarrow> m ! k ! c = (if k = c then 1 else 0)"
    and i2: "\<And>k j. k < 174 \<Longrightarrow> j < 91 \<Longrightarrow> m ! k ! j =
        ((if t \<le> k then G (w ! k) j else 0) + (\<Sum>c<t. m ! k ! (91 + c) * G (w ! c) j)) mod 2"
    using inv by (simp_all add: gj_inv_def)
  have z: "m ! t ! (91 + t) = 0" using i1 [of t t] t by simp
  define m' where "m' = mat_set m t (91 + t) ((m ! t ! (91 + t) + 1) smod 2)"
  have ent: "\<And>k c. k < 174 \<Longrightarrow> c < 182 \<Longrightarrow>
      m' ! k ! c = (if k = t \<and> c = 91 + t then 1 else m ! k ! c)"
    using wf t by (simp add: m'_def gj_nth_mat_set z signed_modulo_int_def)
  have wf': "gj_wf m'" unfolding m'_def using wf by (rule gj_wf_mat_set)
  show ?thesis
    unfolding gj_mid_def m'_def [symmetric]
  proof (intro conjI allI impI)
    show "gj_wf m'" by (rule wf')
    show "length w = 174" by (rule len)
    show "gj_bits m'"
      unfolding gj_bits_def using bits ent by (simp add: gj_bits_def)
    show "m' ! t ! t = 1" using ent [of t t] t piv by simp
  next
    fix k c :: nat assume "k < 174" "c < 91" "Suc t \<le> c"
    then show "m' ! k ! (91 + c) = 0" using ent [of k "91 + c"] i1 [of k c] by simp
  next
    fix k c :: nat assume "k < 174" "c < t"
    then show "m' ! k ! c = (if k = c then 1 else 0)"
      using ent [of k c] i3 [of k c] t by simp
  next
    fix k j :: nat assume kj: "k < 174" "j < 91"
    have s: "(\<Sum>c<t. m' ! k ! (91 + c) * G (w ! c) j) = (\<Sum>c<t. m ! k ! (91 + c) * G (w ! c) j)"
      by (rule sum.cong [OF refl]) (use ent [of k] kj t in simp)
    have last: "m' ! k ! (91 + t) = (if k = t then 1 else 0)"
      using ent [of k "91 + t"] i1 [of k t] kj t by simp
    have "m' ! k ! j = m ! k ! j" using ent [of k j] kj by simp
    also have "\<dots> = ((if t \<le> k then G (w ! k) j else 0) +
                      (\<Sum>c<t. m ! k ! (91 + c) * G (w ! c) j)) mod 2"
      using kj by (rule i2)
    also have "\<dots> = ((if Suc t \<le> k then G (w ! k) j else 0) +
                      ((\<Sum>c<t. m ! k ! (91 + c) * G (w ! c) j) +
                       (if k = t then 1 else 0) * G (w ! t) j)) mod 2"
      by (cases "k = t") (auto simp: add.commute)
    also have "(\<Sum>c<t. m ! k ! (91 + c) * G (w ! c) j) + (if k = t then 1 else 0) * G (w ! t) j
        = (\<Sum>c<Suc t. m' ! k ! (91 + c) * G (w ! c) j)"
      unfolding sum.lessThan_Suc s last ..
    finally show "m' ! k ! j = ((if Suc t \<le> k then G (w ! k) j else 0) +
                      (\<Sum>c<Suc t. m' ! k ! (91 + c) * G (w ! c) j)) mod 2" .
  qed
qed

lemma bit_mod2: "(x = 0 \<or> x = 1) \<Longrightarrow> (x :: int) mod 2 = x"
  by auto

lemma gj_mid_eliminate:
  assumes mid: "gj_mid G t m w" and t: "t < 91"
  shows "gj_inv G (Suc t) (eliminate 91 174 t m) w"
proof -
  have wf: "gj_wf m" and bits: "gj_bits m" and len: "length w = 174"
    and i1: "\<And>k c. k < 174 \<Longrightarrow> c < 91 \<Longrightarrow> Suc t \<le> c \<Longrightarrow> m ! k ! (91 + c) = 0"
    and i3: "\<And>k c. k < 174 \<Longrightarrow> c < t \<Longrightarrow> m ! k ! c = (if k = c then 1 else 0)"
    and piv: "m ! t ! t = 1"
    and i2: "\<And>k j. k < 174 \<Longrightarrow> j < 91 \<Longrightarrow> m ! k ! j =
        ((if Suc t \<le> k then G (w ! k) j else 0) +
         (\<Sum>c<Suc t. m ! k ! (91 + c) * G (w ! c) j)) mod 2"
    using mid by (simp_all add: gj_mid_def)
  have t174: "t < 174" using t by simp
  define m' where "m' = eliminate 91 174 t m"
  have wf': "gj_wf m'" and ent: "\<And>k c. k < 174 \<Longrightarrow> c < 182 \<Longrightarrow> m' ! k ! c =
      (if k \<noteq> t \<and> m ! k ! t \<noteq> 0 then (m ! k ! c + m ! t ! c) mod 2 else m ! k ! c)"
    using eliminate_nth [OF wf bits t174] by (simp_all add: m'_def)
  have bits': "gj_bits m'" unfolding m'_def using wf bits t174 by (rule eliminate_bits)
  have b: "\<And>k c. k < 174 \<Longrightarrow> c < 182 \<Longrightarrow> m ! k ! c = 0 \<or> m ! k ! c = 1"
    using bits by (simp add: gj_bits_def)
  show ?thesis
    unfolding gj_inv_def m'_def [symmetric]
  proof (intro conjI allI impI)
    show "gj_wf m'" by (rule wf')
    show "gj_bits m'" by (rule bits')
    show "length w = 174" by (rule len)
  next
    fix k c :: nat assume kc: "k < 174" "c < 91" "Suc t \<le> c"
    then have "m ! k ! (91 + c) = 0" "m ! t ! (91 + c) = 0" using i1 t174 by simp_all
    then show "m' ! k ! (91 + c) = 0" using ent [of k "91 + c"] kc by simp
  next
    fix k c :: nat assume kc: "k < 174" "c < Suc t"
    have c182: "c < 182" using kc t by simp
    show "m' ! k ! c = (if k = c then 1 else 0)"
    proof (cases "c = t")
      case True
      have "m ! k ! t = 0 \<or> m ! k ! t = 1" using b [of k t] kc t by simp
      then show ?thesis using ent [of k t] kc t piv True by auto
    next
      case False
      then have ct: "c < t" using kc by simp
      then have "m ! t ! c = 0" using i3 [of t c] t174 by simp
      moreover have mk: "m ! k ! c = (if k = c then 1 else 0)" using i3 [of k c] kc ct by simp
      ultimately show ?thesis using ent [of k c] kc c182 by auto
    qed
  next
    fix k j :: nat assume kj: "k < 174" "j < 91"
    let ?own = "if Suc (Suc t) \<le> k \<or> Suc t \<le> k then G (w ! k) j else 0"
    show "m' ! k ! j = ((if Suc t \<le> k then G (w ! k) j else 0) +
                         (\<Sum>c<Suc t. m' ! k ! (91 + c) * G (w ! c) j)) mod 2"
    proof (cases "k \<noteq> t \<and> m ! k ! t \<noteq> 0")
      case False
      have "(\<Sum>c<Suc t. m' ! k ! (91 + c) * G (w ! c) j) = (\<Sum>c<Suc t. m ! k ! (91 + c) * G (w ! c) j)"
        by (rule sum.cong [OF refl]) (use ent [of k] kj t False in auto)
      moreover have "m' ! k ! j = m ! k ! j" using ent [of k j] kj False by auto
      ultimately show ?thesis using i2 [OF kj] by simp
    next
      case True
      define a where "a = (if Suc t \<le> k then G (w ! k) j else 0)"
      define x where "x c = m ! k ! (91 + c)" for c
      define y where "y c = m ! t ! (91 + c)" for c
      define g where "g c = G (w ! c) j" for c
      have e1: "m ! k ! j = (a + (\<Sum>c<Suc t. x c * g c)) mod 2"
        using i2 [OF kj] by (simp add: a_def x_def g_def)
      have e2: "m ! t ! j = (\<Sum>c<Suc t. y c * g c) mod 2"
        using i2 [OF t174 kj(2)] by (simp add: y_def g_def)
      have "(\<Sum>c<Suc t. m' ! k ! (91 + c) * G (w ! c) j) = (\<Sum>c<Suc t. ((x c + y c) mod 2) * g c)"
        by (rule sum.cong [OF refl]) (use ent [of k] kj t True in \<open>auto simp: x_def y_def g_def\<close>)
      then have "(a + (\<Sum>c<Suc t. m' ! k ! (91 + c) * G (w ! c) j)) mod 2
          = (a + (\<Sum>c<Suc t. ((x c + y c) mod 2) * g c) mod 2) mod 2"
        by (simp add: mod_add_right_eq)
      also have "\<dots> = (a + (\<Sum>c<Suc t. (x c + y c) * g c) mod 2) mod 2"
        by (simp only: sum_mod2_mult)
      also have "\<dots> = (a + (\<Sum>c<Suc t. (x c + y c) * g c)) mod 2"
        by (simp add: mod_add_right_eq)
      also have "(\<Sum>c<Suc t. (x c + y c) * g c) = (\<Sum>c<Suc t. x c * g c) + (\<Sum>c<Suc t. y c * g c)"
        by (simp add: distrib_right sum.distrib)
      also have "(a + ((\<Sum>c<Suc t. x c * g c) + (\<Sum>c<Suc t. y c * g c))) mod 2
          = ((a + (\<Sum>c<Suc t. x c * g c)) mod 2 + (\<Sum>c<Suc t. y c * g c) mod 2) mod 2"
        by (simp add: mod_add_eq add.assoc)
      also have "\<dots> = (m ! k ! j + m ! t ! j) mod 2" by (simp only: e1 e2)
      also have "\<dots> = m' ! k ! j" using ent [of k j] kj True by simp
      finally show ?thesis by (simp add: a_def)
    qed
  qed
qed

lemma find_pivot_inv:
  assumes inv: "gj_inv G t m w" and t: "t < 91"
  shows "gj_inv G t (fst (find_pivot 91 174 t (m, w))) (snd (find_pivot 91 174 t (m, w)))"
proof (cases "find (\<lambda>row1. m ! row1 ! t = 1) [t + 1..<174]")
  case None
  then show ?thesis using inv by (simp add: find_pivot_def)
next
  case (Some row1)
  then have "row1 \<in> set [t + 1..<174]" by (auto simp: find_Some_iff)
  then have r: "t < row1" "row1 < 174" by simp_all
  show ?thesis using Some gj_inv_swap [OF inv t r] by (simp add: find_pivot_def)
qed

lemma gj_loop_step:
  "gj_loop 91 174 (t # rest) (m, w) =
    (let s1 = (if m ! t ! t \<noteq> 1 then find_pivot 91 174 t (m, w) else (m, w))
     in if fst s1 ! t ! t \<noteq> 1 then (fst s1, snd s1, 0)
        else gj_loop 91 174 rest
          (eliminate 91 174 t (mat_set (fst s1) t (91 + t) ((fst s1 ! t ! (91 + t) + 1) smod 2)),
           snd s1))"
  by (simp add: Let_def)

lemma gj_loop_inv:
  assumes "gj_inv G t m w" "t \<le> 91" "gj_loop 91 174 [t..<91] (m, w) = (m', w', 1)"
  shows "gj_inv G 91 m' w'"
  using assms
proof (induction "91 - t" arbitrary: t m w)
  case 0
  then have "t = 91" by simp
  with 0 show ?case by simp
next
  case (Suc n)
  then have t: "t < 91" by simp
  define s1 where "s1 = (if m ! t ! t \<noteq> 1 then find_pivot 91 174 t (m, w) else (m, w))"
  define m2 where "m2 = mat_set (fst s1) t (91 + t) ((fst s1 ! t ! (91 + t) + 1) smod 2)"
  have inv1: "gj_inv G t (fst s1) (snd s1)"
    using find_pivot_inv [OF Suc.prems(1) t] Suc.prems(1) by (simp add: s1_def)
  have up: "[t..<91] = t # [Suc t..<91]" using t by (simp add: upt_conv_Cons)
  have run: "gj_loop 91 174 [t..<91] (m, w) =
      (if fst s1 ! t ! t \<noteq> 1 then (fst s1, snd s1, 0)
       else gj_loop 91 174 [Suc t..<91] (eliminate 91 174 t m2, snd s1))"
    unfolding up gj_loop_step s1_def [symmetric] by (simp add: Let_def m2_def)
  show ?case
  proof (cases "fst s1 ! t ! t = 1")
    case False
    then show ?thesis using run Suc.prems(3) by simp
  next
    case True
    have "gj_mid G t m2 (snd s1)" unfolding m2_def using inv1 t True by (rule gj_inv_toggle)
    then have inv2: "gj_inv G (Suc t) (eliminate 91 174 t m2) (snd s1)"
      using t by (rule gj_mid_eliminate)
    have "gj_loop 91 174 [Suc t..<91] (eliminate 91 174 t m2, snd s1) = (m', w', 1)"
      using run True Suc.prems(3) by simp
    moreover have "n = 91 - Suc t" using Suc.hyps(2) by simp
    ultimately show ?thesis using Suc.hyps(1) [of "Suc t"] inv2 t by simp
  qed
qed

lemma gj_loop_append:
  "gj_loop rows cols (xs @ ys) s =
    (let r = gj_loop rows cols xs s
     in if snd (snd r) = 1 then gj_loop rows cols ys (fst r, fst (snd r)) else r)"
  by (induction xs arbitrary: s) (simp_all add: Let_def)

lemma gj_loop_no_pivot:
  assumes "\<forall>k<174. r \<le> k \<longrightarrow> m ! k ! r \<noteq> 1" "r < 91"
  shows "gj_loop 91 174 (r # rest) (m, w) = (m, w, 0)"
proof -
  have "find (\<lambda>row1. m ! row1 ! r = 1) [r + 1..<174] = None"
    using assms by (simp add: find_None_iff)
  then have "find_pivot 91 174 r (m, w) = (m, w)" by (simp add: find_pivot_def)
  moreover have "m ! r ! r \<noteq> 1" using assms by simp
  ultimately show ?thesis unfolding gj_loop_step by (simp add: Let_def)
qed

lemma gj_loop_fails:
  assumes "r < 91" "gj_loop 91 174 [0..<r] (m, w) = (m1, w1, 1)"
    "\<forall>k<174. r \<le> k \<longrightarrow> m1 ! k ! r \<noteq> 1"
  shows "gj_loop 91 174 [0..<91] (m, w) = (m1, w1, 0)"
proof -
  have "[0..<91] = [0..<r] @ r # [Suc r..<91]"
    using assms(1) upt_add_eq_append [of 0 r "91 - r"] by (simp add: upt_conv_Cons)
  then show ?thesis
    using assms gj_loop_no_pivot [OF assms(3) assms(1)] by (simp add: gj_loop_append)
qed

lemma finite_bit_vectors: "finite (bit_vectors n)"
  unfolding bit_vectors_def by (rule finite_lists_length_eq) simp

lemma vec_times_closed: "vec_times n M xs \<in> bit_vectors n"
  by (auto simp: bit_vectors_def vec_times_def)

lemma vec_times_nth: "k < n \<Longrightarrow> vec_times n M xs ! k = (\<Sum>j<n. xs ! j * M j k) mod 2"
  by (simp add: vec_times_def)

lemma bit_vectors_nth: "xs \<in> bit_vectors n \<Longrightarrow> l < n \<Longrightarrow> xs ! l = 0 \<or> xs ! l = 1"
  by (auto simp: bit_vectors_def dest: nth_mem)

lemma sum_mod2_mult_right:
  "(\<Sum>c\<in>S. g c * (f c mod 2)) mod 2 = (\<Sum>c\<in>S. g c * f c) mod (2::int)"
  using sum_mod2_mult [of f g S] by (simp add: mult.commute)

lemma vec_times_twice:
  fixes A B :: "nat \<Rightarrow> nat \<Rightarrow> int"
  assumes l: "l < n"
  shows "vec_times n A (vec_times n B xs) ! l =
         (\<Sum>j<n. xs ! j * ((\<Sum>k<n. B j k * A k l) mod 2)) mod 2"
proof -
  have "vec_times n A (vec_times n B xs) ! l =
        (\<Sum>k<n. ((\<Sum>j<n. xs ! j * B j k) mod 2) * A k l) mod 2"
    using l by (simp add: vec_times_nth)
  also have "\<dots> = (\<Sum>k<n. (\<Sum>j<n. xs ! j * B j k) * A k l) mod 2"
    by (rule sum_mod2_mult)
  also have "(\<Sum>k<n. (\<Sum>j<n. xs ! j * B j k) * A k l) = (\<Sum>k<n. \<Sum>j<n. xs ! j * (B j k * A k l))"
    by (simp add: sum_distrib_right mult.assoc)
  also have "\<dots> = (\<Sum>j<n. \<Sum>k<n. xs ! j * (B j k * A k l))"
    by (rule sum.swap)
  also have "\<dots> = (\<Sum>j<n. xs ! j * (\<Sum>k<n. B j k * A k l))"
    by (simp add: sum_distrib_left)
  also have "\<dots> mod 2 = (\<Sum>j<n. xs ! j * ((\<Sum>k<n. B j k * A k l) mod 2)) mod 2"
    by (rule sum_mod2_mult_right [symmetric])
  finally show ?thesis .
qed

lemma vec_times_left_inverse:
  fixes A B :: "nat \<Rightarrow> nat \<Rightarrow> int"
  assumes BA: "\<And>i k. i < n \<Longrightarrow> k < n \<Longrightarrow> (\<Sum>j<n. B i j * A j k) mod 2 = (if i = k then 1 else 0)"
    and xs: "xs \<in> bit_vectors n"
  shows "vec_times n A (vec_times n B xs) = xs"
proof (rule nth_equalityI)
  show "length (vec_times n A (vec_times n B xs)) = length xs"
    using xs by (simp add: vec_times_def bit_vectors_def)
next
  fix l assume "l < length (vec_times n A (vec_times n B xs))"
  then have l: "l < n" by (simp add: vec_times_def)
  have "vec_times n A (vec_times n B xs) ! l =
        (\<Sum>j<n. xs ! j * ((\<Sum>k<n. B j k * A k l) mod 2)) mod 2"
    using l by (rule vec_times_twice)
  also have "(\<Sum>j<n. xs ! j * ((\<Sum>k<n. B j k * A k l) mod 2)) =
             (\<Sum>j<n. xs ! j * (if j = l then 1 else 0))"
    by (rule sum.cong [OF refl]) (use BA l in simp)
  also have "\<dots> = (\<Sum>j<n. if j = l then xs ! j else 0)"
    by (rule sum.cong [OF refl]) simp
  also have "\<dots> = xs ! l" using l by simp
  also have "xs ! l mod 2 = xs ! l" using bit_vectors_nth [OF xs l] by auto
  finally show "vec_times n A (vec_times n B xs) ! l = xs ! l" .
qed

lemma gf2_left_inverse_is_right_inverse:
  fixes A B :: "nat \<Rightarrow> nat \<Rightarrow> int"
  assumes BA: "\<And>i k. i < n \<Longrightarrow> k < n \<Longrightarrow> (\<Sum>j<n. B i j * A j k) mod 2 = (if i = k then 1 else 0)"
    and i: "i < n" and k: "k < n"
  shows "(\<Sum>j<n. A i j * B j k) mod 2 = (if i = k then 1 else 0)"
proof -
  let ?V = "bit_vectors n"
  have linv: "\<And>xs. xs \<in> ?V \<Longrightarrow> vec_times n A (vec_times n B xs) = xs"
    using BA by (rule vec_times_left_inverse)
  have "inj_on (vec_times n B) ?V"
    by (rule inj_on_inverseI [where g = "vec_times n A"]) (rule linv)
  moreover have "vec_times n B ` ?V \<subseteq> ?V" using vec_times_closed by auto
  ultimately have surj: "vec_times n B ` ?V = ?V"
    using finite_bit_vectors by (intro endo_inj_surj)
  have rinv: "vec_times n B (vec_times n A ys) = ys" if "ys \<in> ?V" for ys
  proof -
    from that surj obtain xs where xs: "xs \<in> ?V" "ys = vec_times n B xs" by blast
    then show ?thesis using linv [OF xs(1)] by simp
  qed
  define e :: "int list" where "e = map (\<lambda>j. if j = i then 1 else 0) [0..<n]"
  have e: "e \<in> ?V" by (auto simp: e_def bit_vectors_def)
  define I :: "nat \<Rightarrow> nat \<Rightarrow> int" where "I a b = (if a = b then 1 else 0)" for a b
  have "vec_times n B (vec_times n A e) ! k =
        (\<Sum>j<n. e ! j * ((\<Sum>l<n. A j l * B l k) mod 2)) mod 2"
    using k by (rule vec_times_twice)
  also have "\<dots> = (\<Sum>j<n. e ! j * (\<Sum>l<n. A j l * B l k)) mod 2"
    by (rule sum_mod2_mult_right)
  also have "(\<Sum>j<n. e ! j * (\<Sum>l<n. A j l * B l k)) =
             (\<Sum>j<n. if j = i then (\<Sum>l<n. A j l * B l k) else 0)"
    by (rule sum.cong [OF refl]) (simp add: e_def)
  also have "\<dots> = (\<Sum>l<n. A i l * B l k)" using i by simp
  finally have "(\<Sum>l<n. A i l * B l k) mod 2 = vec_times n B (vec_times n A e) ! k" by simp
  also have "\<dots> = e ! k" using rinv [OF e] by simp
  also have "\<dots> = (if i = k then 1 else 0)" using k by (auto simp: e_def)
  finally show ?thesis .
qed

lemma gj_inv_initial:
  assumes "gj_wf m" "gj_bits m" "\<forall>k<174. \<forall>c<91. m ! k ! (91 + c) = 0"
    "length which = 174" "\<forall>i<174. \<forall>j<91. G (which ! i) j = m ! i ! j"
  shows "gj_inv G 0 m which"
  unfolding gj_inv_def
proof (intro conjI allI impI)
  fix k j :: nat assume kj: "k < 174" "j < 91"
  then have "m ! k ! j = 0 \<or> m ! k ! j = 1" using assms(2) by (simp add: gj_bits_def)
  then have "m ! k ! j mod 2 = m ! k ! j" by auto
  then show "m ! k ! j = ((if 0 \<le> k then G (which ! k) j else 0) +
                          (\<Sum>c<0. m ! k ! (91 + c) * G (which ! c) j)) mod 2"
    using assms(5) kj by simp
qed (use assms in simp_all)

lemma gj_inv_final:
  assumes inv: "gj_inv G 91 m w" and i: "i < 91" and k: "k < 91"
  shows "(\<Sum>c<91. m ! i ! (91 + c) * G (w ! c) k) mod 2 = (if i = k then 1 else 0)"
proof -
  have i174: "i < 174" using i by simp
  have a: "\<forall>k<174. \<forall>j<91. m ! k ! j = ((if 91 \<le> k then G (w ! k) j else 0) +
                     (\<Sum>c<91. m ! k ! (91 + c) * G (w ! c) j)) mod 2"
    and b: "\<forall>k<174. \<forall>c<91. m ! k ! c = (if k = c then 1 else 0)"
    using inv unfolding gj_inv_def by blast+
  have "m ! i ! k = ((if 91 \<le> i then G (w ! i) k else 0) +
                     (\<Sum>c<91. m ! i ! (91 + c) * G (w ! c) k)) mod 2"
    using a i174 k by blast
  moreover have "m ! i ! k = (if i = k then 1 else 0)"
    using b i174 k by blast
  ultimately show ?thesis using i by simp
qed

lemma gauss_jordan_loop: "gauss_jordan 91 174 m which = Inr (gj_loop 91 174 [0..<91] (m, which))"
  by (simp add: gauss_jordan_def)

lemma gj_right_inverse:
  assumes "gj_wf m" "gj_bits m" "\<forall>k<174. \<forall>c<91. m ! k ! (91 + c) = 0"
    "length which = 174" "\<forall>i<174. \<forall>j<91. G (which ! i) j = m ! i ! j"
    and run: "gj_loop 91 174 [0..<91] (m, which) = (m', which', 1)"
    and i: "i < 91" and k: "k < 91"
  shows "gf2_product (\<lambda>i j. G (which' ! i) j) (\<lambda>j k. m' ! j ! (91 + k)) i k =
         (if i = k then 1 else 0)"
proof -
  have "gj_inv G 0 m which" using assms(1-5) by (rule gj_inv_initial)
  then have inv: "gj_inv G 91 m' which'" by (rule gj_loop_inv [OF _ _ run]) simp
  show ?thesis
    unfolding gf2_product_def
    by (rule gf2_left_inverse_is_right_inverse
        [where B = "\<lambda>i j. m' ! i ! (91 + j)" and A = "\<lambda>j k. G (which' ! j) k", OF _ i k])
       (rule gj_inv_final [OF inv])
qed

text \<open>
  C4. Let \<open>m\<close> be a 174 by 182 matrix of bits whose columns 91..181 are zero, and let
  \<open>G w\<close> be the left half of the row of \<open>m\<close> that \<open>which\<close> records under the label
  \<open>w\<close>. If \<open>gauss_jordan\<close> returns \<open>ok = 1\<close>, the 91 rows of the original left half
  that the returned \<open>which\<close> names, multiplied over GF(2) with the upper right 91 by 91
  block of the returned matrix, give the identity. If the first \<open>r\<close> pivot steps
  succeed and then no row from \<open>r\<close> to 173 has a 1 in column \<open>r\<close>, the function
  returns \<open>ok = 0\<close>.
\<close>

theorem gauss_jordan_inverts:
  assumes "gj_wf m" "gj_bits m"
    and "\<forall>k<174. \<forall>c<91. m ! k ! (91 + c) = 0"
    and "length which = 174"
    and "\<forall>i<174. \<forall>j<91. G (which ! i) j = m ! i ! j"
  shows "(\<forall>m' which'. gauss_jordan 91 174 m which = Inr (m', which', 1) \<longrightarrow>
            (\<forall>i<91. \<forall>k<91.
               gf2_product (\<lambda>i j. G (which' ! i) j) (\<lambda>j k. m' ! j ! (91 + k)) i k =
               (if i = k then 1 else 0))) \<and>
         (\<forall>r<91. \<forall>m1 w1. gj_loop 91 174 [0..<r] (m, which) = (m1, w1, 1) \<and>
            (\<forall>k<174. r \<le> k \<longrightarrow> m1 ! k ! r \<noteq> 1) \<longrightarrow>
            gauss_jordan 91 174 m which = Inr (m1, w1, 0))"
proof (intro conjI allI impI)
  fix m' which' and i k :: nat
  assume "gauss_jordan 91 174 m which = Inr (m', which', 1)" "i < 91" "k < 91"
  then show "gf2_product (\<lambda>i j. G (which' ! i) j) (\<lambda>j k. m' ! j ! (91 + k)) i k =
             (if i = k then 1 else 0)"
    using gj_right_inverse [OF assms] by (simp add: gauss_jordan_loop)
next
  fix r :: nat and m1 w1
  assume "r < 91" "gj_loop 91 174 [0..<r] (m, which) = (m1, w1, 1) \<and>
      (\<forall>k<174. r \<le> k \<longrightarrow> m1 ! k ! r \<noteq> 1)"
  then show "gauss_jordan 91 174 m which = Inr (m1, w1, 0)"
    using gj_loop_fails [of r m which m1 w1] by (simp add: gauss_jordan_loop)
qed

lemma gj_ext:
  assumes "gj_wf a" "gj_wf b" "\<And>r c. r < 174 \<Longrightarrow> c < 182 \<Longrightarrow> a ! r ! c = b ! r ! c"
  shows "a = b"
proof (rule nth_equalityI)
  show "length a = length b" using assms by (simp add: gj_wf_def)
next
  fix r assume "r < length a"
  then have r: "r < 174" using assms(1) by (simp add: gj_wf_def)
  show "a ! r = b ! r"
  proof (rule nth_equalityI)
    show "length (a ! r) = length (b ! r)" using assms r by (simp add: gj_wf_def)
  next
    fix c assume "c < length (a ! r)"
    then have "c < 182" using assms(1) r by (simp add: gj_wf_def)
    then show "a ! r ! c = b ! r ! c" using r by (rule assms(3) [rotated])
  qed
qed

lemma unit_stage_nth:
  "r < 174 \<Longrightarrow> c < 182 \<Longrightarrow>
   unit_stage t ! r ! c = (if r < 91 \<and> (c = r \<or> (r < t \<and> c = 91 + r)) then 1 else 0)"
  by (simp add: unit_stage_def)

lemma unit_stage_wf: "gj_wf (unit_stage t)"
  by (simp add: gj_wf_def unit_stage_def)

lemma unit_stage_bits: "gj_bits (unit_stage t)"
  by (simp add: gj_bits_def unit_stage_nth)

lemma m_swapped_nth:
  "r < 174 \<Longrightarrow> c < 182 \<Longrightarrow>
   m_swapped ! r ! c = (if r < 91 \<and> c = (if r = 0 then 1 else if r = 1 then 0 else r) then 1 else 0)"
  by (simp add: m_swapped_def)

lemma m_swapped_wf: "gj_wf m_swapped"
  by (simp add: gj_wf_def m_swapped_def)

lemma m_swapped_bits: "gj_bits m_swapped"
  by (simp add: gj_bits_def m_swapped_nth)

lemma unit_stage_step:
  assumes t: "t < 91"
  shows "eliminate 91 174 t
           (mat_set (unit_stage t) t (91 + t) ((unit_stage t ! t ! (91 + t) + 1) smod 2)) =
         unit_stage (Suc t)"
proof -
  define m2 where "m2 = mat_set (unit_stage t) t (91 + t) ((unit_stage t ! t ! (91 + t) + 1) smod 2)"
  have t174: "t < 174" and t182: "91 + t < 182" using t by simp_all
  have v: "(unit_stage t ! t ! (91 + t) + 1) smod 2 = 1"
    using t bit_smod2 [of 0 1] by (simp add: unit_stage_nth)
  have wf2: "gj_wf m2" unfolding m2_def using unit_stage_wf by (rule gj_wf_mat_set)
  have n2: "m2 ! r ! c = unit_stage (Suc t) ! r ! c" if "r < 174" "c < 182" for r c
    unfolding m2_def v using that t gj_nth_mat_set [OF unit_stage_wf t174 t182 that(1)]
    by (auto simp: unit_stage_nth)
  have bits2: "gj_bits m2" using unit_stage_bits [of "Suc t"] n2 by (simp add: gj_bits_def)
  have "eliminate 91 174 t m2 = unit_stage (Suc t)"
  proof (rule gj_ext)
    show "gj_wf (eliminate 91 174 t m2)" using eliminate_nth [OF wf2 bits2 t174] by simp
    show "gj_wf (unit_stage (Suc t))" by (rule unit_stage_wf)
  next
    fix r c :: nat assume rc: "r < 174" "c < 182"
    have "r \<noteq> t \<Longrightarrow> m2 ! r ! t = 0" using n2 [of r t] rc t by (simp add: unit_stage_nth)
    then have "eliminate 91 174 t m2 ! r ! c = m2 ! r ! c"
      using eliminate_nth [OF wf2 bits2 t174] rc by auto
    then show "eliminate 91 174 t m2 ! r ! c = unit_stage (Suc t) ! r ! c"
      using n2 rc by simp
  qed
  then show ?thesis by (simp add: m2_def)
qed

lemma unit_stage_run:
  "t \<le> 91 \<Longrightarrow> gj_loop 91 174 [t..<91] (unit_stage t, w) = (unit_stage 91, w, 1)"
proof (induction "91 - t" arbitrary: t)
  case 0
  then show ?case by simp
next
  case (Suc n)
  then have t: "t < 91" by simp
  have up: "[t..<91] = t # [Suc t..<91]" using t by (simp add: upt_conv_Cons)
  have d: "unit_stage t ! t ! t = 1" using t by (simp add: unit_stage_nth)
  have "gj_loop 91 174 [t..<91] (unit_stage t, w) =
        gj_loop 91 174 [Suc t..<91] (unit_stage (Suc t), w)"
    unfolding up gj_loop_step using d unit_stage_step [OF t] by (simp add: Let_def)
  then show ?case using Suc.hyps(1) [of "Suc t"] Suc.hyps(2) t by simp
qed

lemma m_swapped_pivot:
  "find_pivot 91 174 0 (m_swapped, w) = (unit_stage 0, swap_which 0 1 w)"
proof -
  have "[0 + 1..<174] = 1 # [2..<174]" by (simp add: upt_conv_Cons)
  moreover have "m_swapped ! 1 ! 0 = 1" by (simp add: m_swapped_nth)
  ultimately have f: "find (\<lambda>row1. m_swapped ! row1 ! 0 = 1) [0 + 1..<174] = Some 1" by simp
  have "swap_rows 91 0 1 m_swapped = unit_stage 0"
  proof (rule gj_ext)
    show "gj_wf (swap_rows 91 0 1 m_swapped)"
      using swap_rows_nth [OF m_swapped_wf, of 0 1] by simp
    show "gj_wf (unit_stage 0)" by (rule unit_stage_wf)
  next
    fix r c :: nat assume rc: "r < 174" "c < 182"
    have "swap_rows 91 0 1 m_swapped ! r ! c =
          (if r = 0 then m_swapped ! 1 ! c else if r = 1 then m_swapped ! 0 ! c
           else m_swapped ! r ! c)"
      using swap_rows_nth [OF m_swapped_wf, of 0 1] rc by simp
    then show "swap_rows 91 0 1 m_swapped ! r ! c = unit_stage 0 ! r ! c"
      using rc by (auto simp: m_swapped_nth unit_stage_nth)
  qed
  then show ?thesis using f by (simp add: find_pivot_def)
qed

lemma m_swapped_run:
  "gj_loop 91 174 [0..<91] (m_swapped, w) = (unit_stage 91, swap_which 0 1 w, 1)"
proof -
  have up: "[0..<91] = 0 # [Suc 0..<91]" by (simp add: upt_conv_Cons)
  have a: "m_swapped ! 0 ! 0 \<noteq> 1" by (simp add: m_swapped_nth)
  have d: "unit_stage 0 ! 0 ! 0 = 1" by (simp add: unit_stage_nth)
  have "gj_loop 91 174 [0..<91] (m_swapped, w) =
        gj_loop 91 174 [Suc 0..<91] (unit_stage (Suc 0), swap_which 0 1 w)"
    unfolding up gj_loop_step using a d m_swapped_pivot [of w] unit_stage_step [of 0]
    by (simp add: Let_def)
  then show ?thesis using unit_stage_run [of "Suc 0"] by simp
qed

lemma m_zeros_wf: "gj_wf m_zeros"
  by (simp add: gj_wf_def m_zeros_def)

lemma m_zeros_nth: "r < 174 \<Longrightarrow> c < 182 \<Longrightarrow> m_zeros ! r ! c = 0"
  by (simp add: m_zeros_def)

lemma which_id_nth: "i < 174 \<Longrightarrow> which_id ! i = int i"
  by (simp add: which_id_def)

theorem gauss_jordan_inverts_witness:
  "gj_wf m_swapped \<and> gj_bits m_swapped \<and> length which_id = 174 \<and>
   gauss_jordan 91 174 m_swapped which_id = Inr (unit_stage 91, swap_which 0 1 which_id, 1) \<and>
   swap_which 0 1 which_id ! 0 = 1 \<and> swap_which 0 1 which_id ! 1 = 0 \<and>
   gf2_product (\<lambda>i j. m_swapped ! nat (swap_which 0 1 which_id ! i) ! j)
               (\<lambda>j k. unit_stage 91 ! j ! (91 + k)) 0 0 = 1 \<and>
   gf2_product (\<lambda>i j. m_swapped ! nat (swap_which 0 1 which_id ! i) ! j)
               (\<lambda>j k. unit_stage 91 ! j ! (91 + k)) 0 1 = 0 \<and>
   gj_wf m_zeros \<and> gj_bits m_zeros \<and>
   gj_loop 91 174 [0..<0] (m_zeros, which_id) = (m_zeros, which_id, 1) \<and>
   m_zeros ! 0 ! 0 = 0 \<and>
   gauss_jordan 91 174 m_zeros which_id = Inr (m_zeros, which_id, 0)"
proof -
  have len: "length which_id = 174" by (simp add: which_id_def)
  have z: "\<forall>k<174. \<forall>c<91. m_swapped ! k ! (91 + c) = 0" by (simp add: m_swapped_nth)
  have g: "\<forall>i<174. \<forall>j<91. m_swapped ! nat (which_id ! i) ! j = m_swapped ! i ! j"
    by (simp add: which_id_nth)
  have run: "gauss_jordan 91 174 m_swapped which_id =
             Inr (unit_stage 91, swap_which 0 1 which_id, 1)"
    by (simp add: gauss_jordan_loop m_swapped_run)
  note t = gauss_jordan_inverts [OF m_swapped_wf m_swapped_bits z len,
      where G = "\<lambda>w j. m_swapped ! nat w ! j", OF g]
  have p: "\<forall>i<91. \<forall>k<91.
      gf2_product (\<lambda>i j. m_swapped ! nat (swap_which 0 1 which_id ! i) ! j)
                  (\<lambda>j k. unit_stage 91 ! j ! (91 + k)) i k = (if i = k then 1 else 0)"
    using t run by blast
  have p00: "gf2_product (\<lambda>i j. m_swapped ! nat (swap_which 0 1 which_id ! i) ! j)
                  (\<lambda>j k. unit_stage 91 ! j ! (91 + k)) 0 0 = 1"
    using p by simp
  have p01: "gf2_product (\<lambda>i j. m_swapped ! nat (swap_which 0 1 which_id ! i) ! j)
                  (\<lambda>j k. unit_stage 91 ! j ! (91 + k)) 0 1 = 0"
    using p by simp
  have w: "swap_which 0 1 which_id ! 0 = 1" "swap_which 0 1 which_id ! 1 = 0"
    by (simp_all add: swap_which_def which_id_def Let_def)
  have zb: "gj_bits m_zeros" by (simp add: gj_bits_def m_zeros_nth)
  have zz: "\<forall>k<174. \<forall>c<91. m_zeros ! k ! (91 + c) = 0" by (simp add: m_zeros_nth)
  have zg: "\<forall>i<174. \<forall>j<91. (0 :: int) = m_zeros ! i ! j" by (simp add: m_zeros_nth)
  note u = gauss_jordan_inverts [OF m_zeros_wf zb zz len, where G = "\<lambda>w j. 0", OF zg]
  have l0: "gj_loop 91 174 [0..<0] (m_zeros, which_id) = (m_zeros, which_id, 1)" by simp
  have c0: "\<forall>k<174. 0 \<le> k \<longrightarrow> m_zeros ! k ! 0 \<noteq> 1" by (simp add: m_zeros_nth)
  have r0: "(0 :: nat) < 91" by simp
  have fail: "gauss_jordan 91 174 m_zeros which_id = Inr (m_zeros, which_id, 0)"
    using u l0 c0 r0 by blast
  have z00: "m_zeros ! 0 ! 0 = 0" by (simp add: m_zeros_nth)
  show ?thesis
    using m_swapped_wf m_swapped_bits len run w p00 p01 m_zeros_wf zb l0 z00 fail by blast
qed

end
